theory Spec2Isabelle
  imports Main
begin

section \<open>Data model (commons.ts)\<close>

text \<open>
  JavaScript numbers are modelled as \<open>int\<close> (every index the scanner handles is an
  integer), strings as \<open>string\<close> (a list of code units), a thrown \<open>Error\<close> as a value
  of the type \<open>error\<close> on the left of a sum.
\<close>

datatype error =
    NegativeStartIndex int
  | NegativeEndIndex int
  | InvertedInterval int int
  | OutherClassAlreadySet
  | NotAnOutherClass
  | NotAnInnerClass
  | TypeError

subsection \<open>TextInterval\<close>

record TextInterval =
  startIndex :: int
  endIndex :: int

text \<open>The private constructor with its three guards, reached through \<open>TextInterval.of\<close>.\<close>

definition TextInterval_of :: "int \<Rightarrow> int \<Rightarrow> error + TextInterval" where
  "TextInterval_of s e =
     (if s < 0 then Inl (NegativeStartIndex s)
      else if e < 0 then Inl (NegativeEndIndex e)
      else if e < s then Inl (InvertedInterval s e)
      else Inr \<lparr>startIndex = s, endIndex = e\<rparr>)"

definition size_ti :: "TextInterval \<Rightarrow> int" where
  "size_ti t = endIndex t - startIndex t + 1"

definition liesWithin :: "TextInterval \<Rightarrow> TextInterval \<Rightarrow> bool" where
  "liesWithin t interval \<longleftrightarrow>
     startIndex t \<ge> startIndex interval \<and> endIndex t \<le> endIndex interval"

definition includes_ti :: "TextInterval \<Rightarrow> int \<Rightarrow> bool" where
  "includes_ti t index \<longleftrightarrow> startIndex t \<le> index \<and> endIndex t \<ge> index"

subsection \<open>Comment\<close>

datatype CommentType = singleLine | multiLine | javaDoc

record Comment =
  type :: CommentType
  interval :: TextInterval

definition Comment_of :: "CommentType \<Rightarrow> int \<Rightarrow> int \<Rightarrow> error + Comment" where
  "Comment_of t s e =
     (case TextInterval_of s e of
        Inl err \<Rightarrow> Inl err
      | Inr i \<Rightarrow> Inr \<lparr>type = t, interval = i\<rparr>)"

section \<open>The scanner (parser.ts)\<close>

subsection \<open>Reading the text\<close>

text \<open>
  \<open>code[i]\<close>: the character at \<open>i\<close>, or \<open>undefined\<close> (here \<open>None\<close>) when \<open>i\<close> is
  not an index of the text.
\<close>

definition charAt :: "string \<Rightarrow> int \<Rightarrow> char option" where
  "charAt code i = (if 0 \<le> i \<and> i < int (length code) then Some (code ! nat i) else None)"

abbreviation newline :: char where
  "newline \<equiv> CHR 0x0A"

text \<open>
  \<open>/\s/.test(code[i])\<close>. The text is a list of 8-bit characters, so of the characters
  that \<open>\s\<close> matches only tab, line feed, vertical tab, form feed, carriage return,
  space and no-break space occur. \<open>test(undefined)\<close> tests the string
  \<open>"undefined"\<close>, which holds no white space.
\<close>

definition isWhiteSpace :: "char \<Rightarrow> bool" where
  "isWhiteSpace c \<longleftrightarrow>
     c = CHR 0x09 \<or> c = CHR 0x0A \<or> c = CHR 0x0B \<or> c = CHR 0x0C \<or> c = CHR 0x0D
     \<or> c = CHR '' '' \<or> c = CHR 0xA0"

definition whiteSpace_test :: "char option \<Rightarrow> bool" where
  "whiteSpace_test c = (case c of None \<Rightarrow> False | Some ch \<Rightarrow> isWhiteSpace ch)"

text \<open>
  \<open>code.slice(a, b)\<close>: a negative bound counts from the end of the text, both bounds
  are clamped to the text, and the result is empty when they cross.
\<close>

definition slice :: "string \<Rightarrow> int \<Rightarrow> int \<Rightarrow> string" where
  "slice code a b =
     (let n = int (length code);
          from = (if a < 0 then max (n + a) 0 else min a n);
          to = (if b < 0 then max (n + b) 0 else min b n)
      in take (nat (to - from)) (drop (nat from) code))"

subsection \<open>White space around an index\<close>

function includeLeadingWhitespaces_loop :: "string \<Rightarrow> int \<Rightarrow> int" where
  "includeLeadingWhitespaces_loop code i =
     (if i \<ge> 0 then
        (if \<not> whiteSpace_test (charAt code i) then i + 1
         else includeLeadingWhitespaces_loop code (i - 1))
      else 0)"
  by pat_completeness auto
termination
  by (relation "measure (\<lambda>(code, i). nat (i + 1))") auto

definition includeLeadingWhitespaces :: "string \<Rightarrow> int \<Rightarrow> int" where
  "includeLeadingWhitespaces code index =
     (if index \<le> 0 then index else includeLeadingWhitespaces_loop code (index - 1))"

function includeTrailingWhitespaces_loop :: "string \<Rightarrow> int \<Rightarrow> int \<Rightarrow> int" where
  "includeTrailingWhitespaces_loop code lastNewLineIndex i =
     (if i < int (length code) then
        (if charAt code i = Some newline then
           includeTrailingWhitespaces_loop code i (i + 1)
         else if \<not> whiteSpace_test (charAt code i) then lastNewLineIndex
         else includeTrailingWhitespaces_loop code lastNewLineIndex (i + 1))
      else int (length code) - 1)"
  by pat_completeness auto
termination
  by (relation "measure (\<lambda>(code, lastNewLineIndex, i). nat (int (length code) - i))") auto

definition includeTrailingWhitespaces :: "string \<Rightarrow> int \<Rightarrow> int" where
  "includeTrailingWhitespaces code index =
     (if index \<ge> int (length code) - 1 then index
      else includeTrailingWhitespaces_loop code index index)"

subsection \<open>Comments\<close>

definition getCommentType :: "string \<Rightarrow> int \<Rightarrow> CommentType option" where
  "getCommentType code index =
     (if charAt code index = Some CHR ''/'' then Some singleLine
      else if charAt code index = Some CHR ''*'' then
        (if charAt code (index + 1) = Some CHR ''*'' then Some javaDoc else Some multiLine)
      else None)"

function moveToEndOfLine_loop :: "string \<Rightarrow> int \<Rightarrow> int \<Rightarrow> int" where
  "moveToEndOfLine_loop code index i =
     (if i < int (length code) then
        (if charAt code i = Some newline then i
         else moveToEndOfLine_loop code index (i + 1))
      else index)"
  by pat_completeness auto
termination
  by (relation "measure (\<lambda>(code, index, i). nat (int (length code) - i))") auto

definition moveToEndOfLine :: "string \<Rightarrow> int \<Rightarrow> int" where
  "moveToEndOfLine code index = moveToEndOfLine_loop code index index"

function moveToEndOfComment_loop :: "string \<Rightarrow> int \<Rightarrow> int \<Rightarrow> int" where
  "moveToEndOfComment_loop code index i =
     (if i < int (length code) then
        (if charAt code i = Some CHR ''*'' \<and> int (length code) > i + 1
            \<and> charAt code (i + 1) = Some CHR ''/'' then i + 1
         else moveToEndOfComment_loop code index (i + 1))
      else index)"
  by pat_completeness auto
termination
  by (relation "measure (\<lambda>(code, index, i). nat (int (length code) - i))") auto

definition moveToEndOfComment :: "string \<Rightarrow> int \<Rightarrow> int" where
  "moveToEndOfComment code index = moveToEndOfComment_loop code index index"

text \<open>
  The scan of \<open>findComments\<close>: \<open>i\<close> is the loop variable, \<open>comments\<close> the array the
  loop pushes to. \<open>Comment.of\<close> can throw, so the result is a sum.
\<close>

function findComments_loop :: "string \<Rightarrow> int \<Rightarrow> Comment list \<Rightarrow> error + Comment list" where
  "findComments_loop code i comments =
     (if i < int (length code) then
        (if charAt code i = Some CHR ''/'' \<and> int (length code) > i + 1 then
           (let commentType = getCommentType code (i + 1) in
            if commentType = Some singleLine then
              (case Comment_of singleLine i (moveToEndOfLine code (i + 1)) of
                 Inl err \<Rightarrow> Inl err
               | Inr comment \<Rightarrow> findComments_loop code (i + 1) (comments @ [comment]))
            else if commentType = Some multiLine \<or> commentType = Some javaDoc then
              (case Comment_of (the commentType) i (moveToEndOfComment code (i + 1)) of
                 Inl err \<Rightarrow> Inl err
               | Inr comment \<Rightarrow> findComments_loop code (i + 1) (comments @ [comment]))
            else findComments_loop code (i + 1) comments)
         else findComments_loop code (i + 1) comments)
      else Inr comments)"
  by pat_completeness auto
termination
  by (relation "measure (\<lambda>(code, i, comments). nat (int (length code) - i))") auto

definition findComments :: "string \<Rightarrow> error + Comment list" where
  "findComments code = findComments_loop code 0 []"

subsection \<open>Matching a closing bracket\<close>

text \<open>
  The first loop of \<open>moveToClosingBracket\<close> (and of \<open>getScopeOf\<close>): advance the comment
  cursor \<open>k\<close> over the comments that end before \<open>index\<close>.
\<close>

function skipCommentsBefore :: "Comment list \<Rightarrow> int \<Rightarrow> nat \<Rightarrow> nat" where
  "skipCommentsBefore comments index k =
     (if k < length comments \<and> endIndex (interval (comments ! k)) < index
      then skipCommentsBefore comments index (k + 1)
      else k)"
  by pat_completeness auto
termination
  by (relation "measure (\<lambda>(comments, index, k). length comments - k)") auto

text \<open>
  The \<open>for\<close> loop of \<open>moveToClosingBracket\<close>, with its state: the comment cursor \<open>k\<close>,
  the nesting \<open>scope\<close> and the scan pointer \<open>i\<close>. When \<open>i\<close> has reached the start of
  comment \<open>k\<close>, the pointer is set to that comment's end and the character there is
  examined like any other. Falling off the end of the text returns \<open>index\<close>.
\<close>

function moveToClosingBracket_loop ::
  "string \<Rightarrow> int \<Rightarrow> Comment list \<Rightarrow> nat \<Rightarrow> int \<Rightarrow> int \<Rightarrow> int" where
  "moveToClosingBracket_loop code index comments k scope i =
     (if i < int (length code) then
        (let jump = (k < length comments \<and> i \<ge> startIndex (interval (comments ! k)));
             i' = (if jump then endIndex (interval (comments ! k)) else i);
             k' = (if jump then k + 1 else k)
         in if charAt code i' = Some CHR ''{'' then
              moveToClosingBracket_loop code index comments k' (scope + 1) (i' + 1)
            else if charAt code i' = Some CHR ''}'' then
              (if scope - 1 = 0 then i'
               else moveToClosingBracket_loop code index comments k' (scope - 1) (i' + 1))
            else moveToClosingBracket_loop code index comments k' scope (i' + 1))
      else index)"
  by pat_completeness auto
termination
  by (relation "measures [\<lambda>(code, index, comments, k, scope, i). length comments - k,
                          \<lambda>(code, index, comments, k, scope, i). nat (int (length code) - i)]")
     (auto split: if_splits)

definition moveToClosingBracket :: "string \<Rightarrow> int \<Rightarrow> Comment list \<Rightarrow> int" where
  "moveToClosingBracket code index comments =
     moveToClosingBracket_loop code index comments
       (skipCommentsBefore comments index 0) 1 (index + 1)"

subsection \<open>The JavaDoc before a method\<close>

text \<open>
  \<open>findJavaDoc\<close> reads \<open>comments[0].interval\<close> before anything else: on an empty
  array \<open>comments[0]\<close> is \<open>undefined\<close> and the property access throws a
  \<open>TypeError\<close>.
\<close>

function findJavaDoc_loop :: "Comment list \<Rightarrow> int \<Rightarrow> nat \<Rightarrow> Comment \<Rightarrow> Comment" where
  "findJavaDoc_loop comments index i comment =
     (if i < length comments \<and> endIndex (interval (comments ! i)) < index
      then findJavaDoc_loop comments index (i + 1) (comments ! i)
      else comment)"
  by pat_completeness auto
termination
  by (relation "measure (\<lambda>(comments, index, i, comment). length comments - i)") auto

definition findJavaDoc :: "string \<Rightarrow> int \<Rightarrow> Comment list \<Rightarrow> error + Comment option" where
  "findJavaDoc code index comments =
     (case comments of
        [] \<Rightarrow> Inl TypeError
      | comment0 # _ \<Rightarrow>
          if endIndex (interval comment0) > index then Inr None
          else
            (let comment = findJavaDoc_loop comments index 1 comment0 in
             if type comment \<noteq> javaDoc then Inr None
             else
               (let spaces = slice code (endIndex (interval comment) + 1) index
                in if list_all isWhiteSpace spaces then Inr (Some comment) else Inr None)))"

definition includeJavaDoc :: "string \<Rightarrow> int \<Rightarrow> Comment list \<Rightarrow> error + int" where
  "includeJavaDoc code index comments =
     (case findJavaDoc code index comments of
        Inl err \<Rightarrow> Inl err
      | Inr None \<Rightarrow> Inr index
      | Inr (Some doc) \<Rightarrow> Inr (startIndex (interval doc)))"

subsection \<open>Brace depth from an index to the end of a class body\<close>

text \<open>
  The \<open>for\<close> loop of \<open>JavaClass.getScopeOf\<close>; \<open>bodyEnd\<close> is \<open>bodyInterval.endIndex\<close>.
  Unlike \<open>moveToClosingBracket\<close>, an iteration that jumps over a comment examines no
  character.
\<close>

function getScopeOf_loop ::
  "string \<Rightarrow> Comment list \<Rightarrow> int \<Rightarrow> nat \<Rightarrow> int \<Rightarrow> int \<Rightarrow> int" where
  "getScopeOf_loop code comments bodyEnd k scope i =
     (if i < bodyEnd then
        (if k < length comments \<and> startIndex (interval (comments ! k)) \<le> i then
           getScopeOf_loop code comments bodyEnd (k + 1) scope
             (endIndex (interval (comments ! k)) + 1)
         else if charAt code i = Some CHR ''{'' then
           getScopeOf_loop code comments bodyEnd k (scope + 1) (i + 1)
         else if charAt code i = Some CHR ''}'' then
           getScopeOf_loop code comments bodyEnd k (scope - 1) (i + 1)
         else getScopeOf_loop code comments bodyEnd k scope (i + 1))
      else scope)"
  by pat_completeness auto
termination
  by (relation "measures [\<lambda>(code, comments, bodyEnd, k, scope, i). length comments - k,
                          \<lambda>(code, comments, bodyEnd, k, scope, i). nat (bodyEnd - i)]")
     auto

section \<open>The class tree (commons.ts)\<close>

text \<open>
  A \<open>JavaClass\<close> object refers to its inner classes and to its outer class, and
  \<open>findExistingMethod\<close> compares nodes with \<open>===\<close>. The objects therefore live in a
  store: a reference is an index into the list of all objects created so far, and
  \<open>===\<close> is equality of references.
\<close>

type_synonym ref = nat

record JavaClass =
  name :: string
  comments :: "Comment list"
  signatureInterval :: TextInterval
  bodyInterval :: TextInterval
  classInterval :: TextInterval
  innerClasses :: "ref list"
  outherClass :: "ref option"

type_synonym heap = "JavaClass list"

text \<open>
  \<open>JavaClass.of\<close>: keeps the comments that lie within the body and creates the object.
  The constructor builds \<open>classInterval\<close> with \<open>TextInterval.of\<close>, which can throw.
\<close>

definition JavaClass_of ::
  "heap \<Rightarrow> string \<Rightarrow> TextInterval \<Rightarrow> TextInterval \<Rightarrow> Comment list \<Rightarrow> error + ref \<times> heap" where
  "JavaClass_of h n sig body cs =
     (let classComments = filter (\<lambda>comment. liesWithin (interval comment) body) cs in
      case TextInterval_of (startIndex sig) (endIndex body) of
        Inl err \<Rightarrow> Inl err
      | Inr ci \<Rightarrow>
          Inr (length h,
               h @ [\<lparr>name = n, comments = classComments, signatureInterval = sig,
                     bodyInterval = body, classInterval = ci,
                     innerClasses = [], outherClass = None\<rparr>]))"

definition setOutherClass :: "heap \<Rightarrow> ref \<Rightarrow> ref \<Rightarrow> error + heap" where
  "setOutherClass h this outher =
     (if outherClass (h ! this) \<noteq> None then Inl OutherClassAlreadySet
      else if \<not> liesWithin (classInterval (h ! this)) (bodyInterval (h ! outher))
        then Inl NotAnOutherClass
      else Inr (h[this := (h ! this)\<lparr>outherClass := Some outher\<rparr>]))"

text \<open>\<open>add\<close> pushes the inner class first and sets its outer class afterwards.\<close>

definition add :: "heap \<Rightarrow> ref \<Rightarrow> ref \<Rightarrow> error + heap" where
  "add h this innerClass =
     (if \<not> liesWithin (classInterval (h ! innerClass)) (bodyInterval (h ! this))
        then Inl NotAnInnerClass
      else setOutherClass
             (h[this := (h ! this)\<lparr>innerClasses := innerClasses (h ! this) @ [innerClass]\<rparr>])
             innerClass this)"

definition getScopeOf :: "JavaClass \<Rightarrow> int \<Rightarrow> string \<Rightarrow> int" where
  "getScopeOf this index code =
     getScopeOf_loop code (comments this) (endIndex (bodyInterval this))
       (skipCommentsBefore (comments this) index 0) 0 index"

definition belongsToAComment :: "JavaClass \<Rightarrow> int \<Rightarrow> bool" where
  "belongsToAComment this index =
     list_ex (\<lambda>comment. includes_ti (interval comment) index) (comments this)"

text \<open>
  \<open>getScope\<close> follows the \<open>outherClass\<close> references. Nothing in the type of the store
  says that they end, so the function is partial: \<open>None\<close> is a call that does not
  return (or a reference to no object, which the source cannot hold).
\<close>

partial_function (option) getScope :: "heap \<Rightarrow> ref \<Rightarrow> int option" where
  "getScope h this =
     (if this \<ge> length h then None
      else case outherClass (h ! this) of
             Some outher \<Rightarrow> Option.bind (getScope h outher) (\<lambda>s. Some (s + 1))
           | None \<Rightarrow> Some 1)"

text \<open>
  The \<open>for\<close> loop of \<open>getEnclosingClass\<close>: the first inner class whose own call returns
  a class wins; when none does, the result is \<open>this\<close>. The inner \<open>option\<close> is
  \<open>JavaClass|null\<close>, the outer one is a call that does not return.
\<close>

primrec firstPointed ::
  "(ref \<Rightarrow> ref option option) \<Rightarrow> ref list \<Rightarrow> ref \<Rightarrow> ref option option" where
  "firstPointed f [] this = Some (Some this)"
| "firstPointed f (innerClass # rest) this =
     Option.bind (f innerClass)
       (\<lambda>pointedClass. case pointedClass of
            Some p \<Rightarrow> Some (Some p)
          | None \<Rightarrow> firstPointed f rest this)"

lemma firstPointed_mono [partial_function_mono]:
  assumes "\<And>c. mono_option (\<lambda>f. F f c)"
  shows "mono_option (\<lambda>f. firstPointed (F f) cs this)"
proof (induction cs)
  case Nil
  show ?case by (simp add: option.const_mono)
next
  case (Cons c cs)
  show ?case
    unfolding firstPointed.simps
  proof (intro partial_function_mono assms)
    fix y :: "ref option"
    show "mono_option (\<lambda>f. case y of None \<Rightarrow> firstPointed (F f) cs this
                                 | Some p \<Rightarrow> Some (Some p))"
      by (cases y) (simp_all add: Cons.IH option.const_mono)
  qed
qed

partial_function (option) getEnclosingClass :: "heap \<Rightarrow> ref \<Rightarrow> int \<Rightarrow> ref option option" where
  "getEnclosingClass h this index =
     (if this \<ge> length h then None
      else if \<not> includes_ti (classInterval (h ! this)) index then Some None
      else firstPointed (\<lambda>innerClass. getEnclosingClass h innerClass index)
             (innerClasses (h ! this)) this)"

definition getInsertIndex :: "JavaClass \<Rightarrow> string \<Rightarrow> int \<Rightarrow> int" where
  "getInsertIndex this javaFileContent index =
     (if \<not> includes_ti (bodyInterval this) index then endIndex (bodyInterval this)
      else if \<not> whiteSpace_test (charAt javaFileContent index) then endIndex (bodyInterval this)
      else if belongsToAComment this index then endIndex (bodyInterval this)
      else if getScopeOf this index javaFileContent \<noteq> 0 then endIndex (bodyInterval this)
      else index)"

section \<open>Locating an existing method (parser.ts)\<close>

text \<open>
  A match of a regular expression: \<open>match.index\<close>, the matched text \<open>match[0]\<close> and
  the first group \<open>match[1]\<close>. The pattern itself comes from the configuration; it is a
  parameter here, as the function that lists its matches in a text in ascending order
  (what \<open>matchAll\<close> yields for a global pattern).
\<close>

record RegExpMatch =
  matchIndex :: int
  matched :: string
  group1 :: string

type_synonym RegExp = "string \<Rightarrow> RegExpMatch list"

text \<open>
  The body of the \<open>for\<close> loop of \<open>findExistingMethod\<close> for a match that the class owns.
\<close>

definition methodInterval :: "string \<Rightarrow> RegExpMatch \<Rightarrow> Comment list \<Rightarrow> error + TextInterval" where
  "methodInterval javaFileContent match cs =
     (let methodStartIndex = matchIndex match in
      case includeJavaDoc javaFileContent methodStartIndex cs of
        Inl err \<Rightarrow> Inl err
      | Inr javaDocStartIndex \<Rightarrow>
          (let leadingWhiteSpacesStartIndex =
                 includeLeadingWhitespaces javaFileContent javaDocStartIndex;
               openBracketIndex = methodStartIndex + int (length (matched match));
               closeBracketIndex = moveToClosingBracket javaFileContent openBracketIndex cs;
               selectionStartIndex = leadingWhiteSpacesStartIndex;
               selectionEndIndex =
                 includeTrailingWhitespaces javaFileContent (closeBracketIndex + 1)
           in TextInterval_of selectionStartIndex selectionEndIndex))"

text \<open>
  The result of \<open>findExistingMethod\<close>: \<open>None\<close> when a call of \<open>getEnclosingClass\<close> does
  not return, \<open>Some (Inl err)\<close> when an exception escapes, \<open>Some (Inr None)\<close> for
  \<open>null\<close> and \<open>Some (Inr (Some t))\<close> for an interval.
\<close>

fun findExistingMethod_loop ::
  "heap \<Rightarrow> string \<Rightarrow> RegExpMatch list \<Rightarrow> ref \<Rightarrow> (error + TextInterval option) option" where
  "findExistingMethod_loop h javaFileContent [] javaClass = Some (Inr None)"
| "findExistingMethod_loop h javaFileContent (match # allMatches) javaClass =
     (case getEnclosingClass h javaClass (matchIndex match) of
        None \<Rightarrow> None
      | Some ownerClass \<Rightarrow>
          if ownerClass = Some javaClass then
            (case methodInterval javaFileContent match (comments (h ! javaClass)) of
               Inl err \<Rightarrow> Some (Inl err)
             | Inr t \<Rightarrow> Some (Inr (Some t)))
          else findExistingMethod_loop h javaFileContent allMatches javaClass)"

definition findExistingMethod ::
  "heap \<Rightarrow> string \<Rightarrow> RegExp \<Rightarrow> ref \<Rightarrow> (error + TextInterval option) option" where
  "findExistingMethod h javaFileContent regexp javaClass =
     findExistingMethod_loop h javaFileContent (regexp javaFileContent) javaClass"

section \<open>Building the class forest (parser.ts)\<close>

text \<open>The loop \<open>for( const innerClass of innerClasses ) javaClass.add( innerClass )\<close>.\<close>

fun addAll :: "heap \<Rightarrow> ref \<Rightarrow> ref list \<Rightarrow> error + heap" where
  "addAll h javaClass [] = Inr h"
| "addAll h javaClass (innerClass # rest) =
     (case add h javaClass innerClass of
        Inl err \<Rightarrow> Inl err
      | Inr h' \<Rightarrow> addAll h' javaClass rest)"

text \<open>
  \<open>parseClasses\<close> takes the matches of the class pattern in source order. One round of its
  \<open>while\<close> loop handles the first match, hands the following matches that start inside
  the body to the recursive call, and goes on with the remaining ones. The result is the
  list of top-level classes (\<open>classes\<close>) and the store with every object created.
  A local variable that bears the name of a field of \<open>JavaClass\<close> is primed.
\<close>

function parseClasses ::
  "heap \<Rightarrow> string \<Rightarrow> Comment list \<Rightarrow> RegExpMatch list \<Rightarrow> error + ref list \<times> heap" where
  "parseClasses h code cs [] = Inr ([], h)"
| "parseClasses h code cs (classMatch # classMatches) =
     (let signatureStartIndex = matchIndex classMatch;
          signatureEndIndex = signatureStartIndex + int (length (matched classMatch)) - 1;
          bodyStartIndex = signatureEndIndex + 1;
          bodyEndIndex = moveToClosingBracket code bodyStartIndex cs
      in case TextInterval_of signatureStartIndex signatureEndIndex of
           Inl err \<Rightarrow> Inl err
         | Inr signatureInterval' \<Rightarrow>
      (case TextInterval_of bodyStartIndex bodyEndIndex of
           Inl err \<Rightarrow> Inl err
         | Inr bodyInterval' \<Rightarrow>
      (case JavaClass_of h (group1 classMatch) signatureInterval' bodyInterval' cs of
           Inl err \<Rightarrow> Inl err
         | Inr (javaClass, h1) \<Rightarrow>
      (let innerClassMatches =
             takeWhile (\<lambda>m. includes_ti bodyInterval' (matchIndex m)) classMatches;
           remaining = dropWhile (\<lambda>m. includes_ti bodyInterval' (matchIndex m)) classMatches
       in case parseClasses h1 code cs innerClassMatches of
            Inl err \<Rightarrow> Inl err
          | Inr (innerClasses', h2) \<Rightarrow>
       (case addAll h2 javaClass innerClasses' of
            Inl err \<Rightarrow> Inl err
          | Inr h3 \<Rightarrow>
       (case parseClasses h3 code cs remaining of
            Inl err \<Rightarrow> Inl err
          | Inr (classes, h4) \<Rightarrow> Inr (javaClass # classes, h4)))))))"
  by pat_completeness auto
termination
  by (relation "measure (\<lambda>(h, code, cs, classMatches). length classMatches)")
     (auto simp: less_Suc_eq_le length_takeWhile_le length_dropWhile_le)

text \<open>
  \<open>findClasses\<close>: the matches of the class pattern, a parameter here, go to
  \<open>parseClasses\<close> with an empty store.
\<close>

definition findClasses :: "string \<Rightarrow> Comment list \<Rightarrow> RegExp \<Rightarrow> error + ref list \<times> heap" where
  "findClasses code cs classRegExp = parseClasses [] code cs (classRegExp code)"

section \<open>Notions for the statements and their proofs\<close>

subsection \<open>The comment pushed at an index\<close>

text \<open>
  What one iteration of the loop of \<open>findComments\<close> pushes at position \<open>i\<close>, if
  anything. It serves to describe the result of the whole scan.
\<close>

definition commentAt :: "string \<Rightarrow> int \<Rightarrow> Comment option" where
  "commentAt code i =
     (if charAt code i = Some CHR ''/'' \<and> int (length code) > i + 1 then
        (case getCommentType code (i + 1) of
           None \<Rightarrow> None
         | Some singleLine \<Rightarrow>
             Some \<lparr>type = singleLine,
                   interval = \<lparr>startIndex = i, endIndex = moveToEndOfLine code (i + 1)\<rparr>\<rparr>
         | Some t \<Rightarrow>
             Some \<lparr>type = t,
                   interval = \<lparr>startIndex = i, endIndex = moveToEndOfComment code (i + 1)\<rparr>\<rparr>)
      else None)"

subsection \<open>The matching bracket, as the specification words it\<close>

text \<open>
  The contract of the bracket matcher in the words of the specification, to compare the
  code with: an index is skipped when a comment of the list includes it; the nesting is 1
  at the open brace \<open>index\<close> and changes by one at every brace that is not skipped; the
  matching bracket is the first index after \<open>index\<close> where the nesting is 0, if the text
  has one.
\<close>

definition inComment :: "Comment list \<Rightarrow> int \<Rightarrow> bool" where
  "inComment cs p = list_ex (\<lambda>c. includes_ti (interval c) p) cs"

definition braceWeight :: "string \<Rightarrow> Comment list \<Rightarrow> int \<Rightarrow> int" where
  "braceWeight code cs p =
     (if inComment cs p then 0
      else if charAt code p = Some CHR ''{'' then 1
      else if charAt code p = Some CHR ''}'' then - 1
      else 0)"

definition nestingAt :: "string \<Rightarrow> Comment list \<Rightarrow> int \<Rightarrow> int \<Rightarrow> int" where
  "nestingAt code cs index j = 1 + sum_list (map (braceWeight code cs) [index + 1..j])"

definition matchingBracket :: "string \<Rightarrow> Comment list \<Rightarrow> int \<Rightarrow> int option" where
  "matchingBracket code cs index =
     List.find (\<lambda>j. nestingAt code cs index j = 0) [index + 1..int (length code) - 1]"

text \<open>
  Comment lists in which every comment ends before the next one starts.
\<close>

definition disjointComments :: "Comment list \<Rightarrow> bool" where
  "disjointComments cs \<longleftrightarrow>
     sorted_wrt (\<lambda>a b. endIndex (interval a) < startIndex (interval b)) cs \<and>
     list_all (\<lambda>c. startIndex (interval c) \<le> endIndex (interval c)) cs"

text \<open>
  Such lists in which, moreover, every comment ends on a character that is not a brace
  (the scanner ends a comment on \<open>/\<close>, on a line feed, or, when the comment is not
  closed, on the second character of its opener).
\<close>

definition separateComments :: "string \<Rightarrow> Comment list \<Rightarrow> bool" where
  "separateComments code cs \<longleftrightarrow>
     disjointComments cs \<and>
     list_all (\<lambda>c. charAt code (endIndex (interval c)) \<noteq> Some CHR ''{''
                 \<and> charAt code (endIndex (interval c)) \<noteq> Some CHR ''}'') cs"

text \<open>
  The brace depth from an index to the end of a class body, in the words of the
  specification: the braces from \<open>index\<close> to \<open>bodyEnd - 1\<close> that no comment includes,
  an open one counting 1 and a close one -1.
\<close>

definition braceDepth :: "string \<Rightarrow> Comment list \<Rightarrow> int \<Rightarrow> int \<Rightarrow> int" where
  "braceDepth code cs index bodyEnd =
     sum_list (map (braceWeight code cs) [index..bodyEnd - 1])"

subsection \<open>Well-nested stores\<close>

text \<open>
  What \<open>TextInterval.of\<close> guarantees of an interval, and what \<open>parseClasses\<close> and
  \<open>add\<close> guarantee of the objects of a store: the signature starts before the body,
  the class interval ends where the body ends, every inner class is an object of the
  store whose class interval lies within the body, and so does the class itself within
  the body of its outer class.
\<close>

definition validInterval :: "TextInterval \<Rightarrow> bool" where
  "validInterval t \<longleftrightarrow> 0 \<le> startIndex t \<and> startIndex t \<le> endIndex t"

definition wellNestedClass :: "heap \<Rightarrow> JavaClass \<Rightarrow> bool" where
  "wellNestedClass h jc \<longleftrightarrow>
     validInterval (classInterval jc) \<and>
     startIndex (classInterval jc) < startIndex (bodyInterval jc) \<and>
     endIndex (bodyInterval jc) \<le> endIndex (classInterval jc) \<and>
     list_all (\<lambda>c. c < length h \<and> liesWithin (classInterval (h ! c)) (bodyInterval jc))
       (innerClasses jc) \<and>
     (case outherClass jc of
        None \<Rightarrow> True
      | Some p \<Rightarrow> p < length h \<and> liesWithin (classInterval jc) (bodyInterval (h ! p)))"

definition wellNested :: "heap \<Rightarrow> bool" where
  "wellNested h = list_all (wellNestedClass h) h"

subsection \<open>Example inputs\<close>

text \<open>
  A class \<open>A\<close> with an inner class of the same name that holds a method \<open>m\<close>, the
  matches of the class pattern in it, the store that \<open>findClasses\<close> builds from them,
  and a method pattern with its single match, inside the inner class.
\<close>

definition exampleText :: string where
  "exampleText = ''class A { class A { void m(){} } }''"

definition exampleClassMatches :: "RegExpMatch list" where
  "exampleClassMatches =
     [\<lparr>matchIndex = 0, matched = ''class A '', group1 = ''A''\<rparr>,
      \<lparr>matchIndex = 10, matched = ''class A '', group1 = ''A''\<rparr>]"

definition exampleHeap :: heap where
  "exampleHeap =
     [\<lparr>name = ''A'', comments = [],
       signatureInterval = \<lparr>startIndex = 0, endIndex = 7\<rparr>,
       bodyInterval = \<lparr>startIndex = 8, endIndex = 33\<rparr>,
       classInterval = \<lparr>startIndex = 0, endIndex = 33\<rparr>,
       innerClasses = [1], outherClass = None\<rparr>,
      \<lparr>name = ''A'', comments = [],
       signatureInterval = \<lparr>startIndex = 10, endIndex = 17\<rparr>,
       bodyInterval = \<lparr>startIndex = 18, endIndex = 31\<rparr>,
       classInterval = \<lparr>startIndex = 10, endIndex = 31\<rparr>,
       innerClasses = [], outherClass = Some 0\<rparr>]"

definition exampleMethodRegExp :: RegExp where
  "exampleMethodRegExp javaFileContent =
     [\<lparr>matchIndex = 19, matched = '' void m(){'', group1 = ''''\<rparr>]"

text \<open>A class with a comment and a method, for \<open>getInsertIndex\<close>.\<close>

definition insertText :: string where
  "insertText = ''class A { /* c */ int f(){ return 1; } }''"

definition insertClass :: JavaClass where
  "insertClass =
     \<lparr>name = ''A'',
      comments = [\<lparr>type = multiLine, interval = \<lparr>startIndex = 10, endIndex = 16\<rparr>\<rparr>],
      signatureInterval = \<lparr>startIndex = 0, endIndex = 7\<rparr>,
      bodyInterval = \<lparr>startIndex = 8, endIndex = 39\<rparr>,
      classInterval = \<lparr>startIndex = 0, endIndex = 39\<rparr>,
      innerClasses = [], outherClass = None\<rparr>"

text \<open>
  A class whose body holds two multi-line comments, each with a \<open>//\<close> on its first
  line and a brace on its second: the text \<open>class A {/* // \<close>, line feed,
  \<open> { */ /* // \<close>, line feed, \<open> } */ }\<close>, the comments that \<open>findComments\<close> finds in
  it, and the class that \<open>findClasses\<close> builds from them.
\<close>

definition nestedText :: string where
  "nestedText =
     ''class A {/* // '' @ [newline] @ '' { */ /* // '' @ [newline] @ '' } */ }''"

definition nestedComments :: "Comment list" where
  "nestedComments =
     [\<lparr>type = multiLine, interval = \<lparr>startIndex = 9, endIndex = 20\<rparr>\<rparr>,
      \<lparr>type = singleLine, interval = \<lparr>startIndex = 12, endIndex = 15\<rparr>\<rparr>,
      \<lparr>type = multiLine, interval = \<lparr>startIndex = 22, endIndex = 33\<rparr>\<rparr>,
      \<lparr>type = singleLine, interval = \<lparr>startIndex = 25, endIndex = 28\<rparr>\<rparr>]"

definition nestedClass :: JavaClass where
  "nestedClass =
     \<lparr>name = ''A'', comments = nestedComments,
      signatureInterval = \<lparr>startIndex = 0, endIndex = 7\<rparr>,
      bodyInterval = \<lparr>startIndex = 8, endIndex = 35\<rparr>,
      classInterval = \<lparr>startIndex = 0, endIndex = 35\<rparr>,
      innerClasses = [], outherClass = None\<rparr>"

section \<open>TextInterval construction\<close>

text \<open>
  C9. For all integers \<open>s\<close> and \<open>e\<close>, \<open>TextInterval.of(s,e)\<close> succeeds exactly when
  \<open>0 \<le> s \<le> e\<close> and throws when \<open>s < 0\<close>, \<open>e < 0\<close> or \<open>e < s\<close>; on success the stored
  bounds are the arguments, so the interval holds at least one index.
\<close>

theorem TextInterval_of_succeeds_iff:
  "((\<exists>t. TextInterval_of s e = Inr t) \<longleftrightarrow> 0 \<le> s \<and> s \<le> e) \<and>
   ((\<exists>err. TextInterval_of s e = Inl err) \<longleftrightarrow> s < 0 \<or> e < 0 \<or> e < s) \<and>
   (\<forall>t. TextInterval_of s e = Inr t \<longrightarrow>
      startIndex t = s \<and> endIndex t = e \<and> size_ti t \<ge> 1 \<and> includes_ti t s)"
  by (auto simp: TextInterval_of_def size_ti_def includes_ti_def)

theorem TextInterval_of_succeeds_iff_witness:
  "TextInterval_of 2 5 = Inr \<lparr>startIndex = 2, endIndex = 5\<rparr> \<and>
   size_ti \<lparr>startIndex = 2, endIndex = 5\<rparr> = 4 \<and>
   TextInterval_of 3 3 = Inr \<lparr>startIndex = 3, endIndex = 3\<rparr> \<and>
   TextInterval_of (- 1) 5 = Inl (NegativeStartIndex (- 1)) \<and>
   TextInterval_of 5 2 = Inl (InvertedInterval 5 2)"
  using TextInterval_of_succeeds_iff [of 2 5] TextInterval_of_succeeds_iff [of 3 3]
    TextInterval_of_succeeds_iff [of "- 1" 5] TextInterval_of_succeeds_iff [of 5 2]
  by (simp add: TextInterval_of_def size_ti_def)

section \<open>The comment scan\<close>

declare moveToEndOfLine_loop.simps [simp del] moveToEndOfComment_loop.simps [simp del]
  findComments_loop.simps [simp del]

lemma moveToEndOfLine_loop_none:
  "(\<forall>m. i \<le> m \<and> m < int (length code) \<longrightarrow> charAt code m \<noteq> Some newline)
   \<Longrightarrow> moveToEndOfLine_loop code index i = index"
proof (induction code index i rule: moveToEndOfLine_loop.induct)
  case (1 code index i)
  show ?case
  proof (cases "i < int (length code)")
    case True
    with "1.prems" have ne: "charAt code i \<noteq> Some newline" by simp
    have "moveToEndOfLine_loop code index (i + 1) = index"
      using "1.IH" [OF True ne] "1.prems" by simp
    then show ?thesis using True ne by (subst moveToEndOfLine_loop.simps) simp
  next
    case False
    then show ?thesis by (subst moveToEndOfLine_loop.simps) simp
  qed
qed

lemma moveToEndOfLine_loop_found:
  "i \<le> j \<Longrightarrow> j < int (length code) \<Longrightarrow> charAt code j = Some newline
   \<Longrightarrow> (\<forall>m. i \<le> m \<and> m < j \<longrightarrow> charAt code m \<noteq> Some newline)
   \<Longrightarrow> moveToEndOfLine_loop code index i = j"
proof (induction code index i rule: moveToEndOfLine_loop.induct)
  case (1 code index i)
  show ?case
  proof (cases "i = j")
    case True
    then show ?thesis using "1.prems"(2,3) by (subst moveToEndOfLine_loop.simps) simp
  next
    case False
    with "1.prems" have lt: "i < j" and ne: "charAt code i \<noteq> Some newline" by auto
    have il: "i < int (length code)" using lt "1.prems"(2) by simp
    have "moveToEndOfLine_loop code index (i + 1) = j"
    proof (rule "1.IH" [OF il ne])
      show "i + 1 \<le> j" using lt by simp
      show "j < int (length code)" by (rule "1.prems"(2))
      show "charAt code j = Some newline" by (rule "1.prems"(3))
      show "\<forall>m. i + 1 \<le> m \<and> m < j \<longrightarrow> charAt code m \<noteq> Some newline"
        using "1.prems"(4) by simp
    qed
    then show ?thesis using il ne by (subst moveToEndOfLine_loop.simps) simp
  qed
qed

lemma moveToEndOfLine_loop_ge:
  "moveToEndOfLine_loop code index i = index \<or> i \<le> moveToEndOfLine_loop code index i"
proof (induction code index i rule: moveToEndOfLine_loop.induct)
  case (1 code index i)
  have eq: "moveToEndOfLine_loop code index i =
     (if i < int (length code) then
        (if charAt code i = Some newline then i
         else moveToEndOfLine_loop code index (i + 1))
      else index)"
    by (rule moveToEndOfLine_loop.simps)
  show ?case
  proof (cases "i < int (length code) \<and> charAt code i \<noteq> Some newline")
    case True
    then show ?thesis using "1.IH" eq by auto
  next
    case False
    then show ?thesis using eq by auto
  qed
qed

lemma moveToEndOfLine_ge: "index \<le> moveToEndOfLine code index"
  using moveToEndOfLine_loop_ge [of code index index] by (auto simp: moveToEndOfLine_def)

lemma moveToEndOfComment_loop_ge:
  "moveToEndOfComment_loop code index i = index \<or> i \<le> moveToEndOfComment_loop code index i"
proof (induction code index i rule: moveToEndOfComment_loop.induct)
  case (1 code index i)
  have eq: "moveToEndOfComment_loop code index i =
     (if i < int (length code) then
        (if charAt code i = Some CHR ''*'' \<and> int (length code) > i + 1
            \<and> charAt code (i + 1) = Some CHR ''/'' then i + 1
         else moveToEndOfComment_loop code index (i + 1))
      else index)"
    by (rule moveToEndOfComment_loop.simps)
  show ?case
  proof (cases "i < int (length code) \<and> \<not> (charAt code i = Some CHR ''*'' \<and> int (length code) > i + 1
            \<and> charAt code (i + 1) = Some CHR ''/'')")
    case True
    then show ?thesis using "1.IH" eq by auto
  next
    case False
    then show ?thesis using eq by auto
  qed
qed

lemma moveToEndOfComment_ge: "index \<le> moveToEndOfComment code index"
  using moveToEndOfComment_loop_ge [of code index index] by (auto simp: moveToEndOfComment_def)


lemma Comment_of_ok: "0 \<le> s \<Longrightarrow> s \<le> e \<Longrightarrow>
  Comment_of t s e = Inr \<lparr>type = t, interval = \<lparr>startIndex = s, endIndex = e\<rparr>\<rparr>"
  by (simp add: Comment_of_def TextInterval_of_def)

lemma findComments_loop_step:
  assumes "0 \<le> i" "i < int (length code)"
  shows "findComments_loop code i acc =
         findComments_loop code (i + 1) (acc @ (case commentAt code i of None \<Rightarrow> [] | Some c \<Rightarrow> [c]))"
proof -
  have a: "i \<le> moveToEndOfLine code (i + 1)" using moveToEndOfLine_ge [of "i + 1" code] by simp
  have b: "i \<le> moveToEndOfComment code (i + 1)" using moveToEndOfComment_ge [of "i + 1" code] by simp
  show ?thesis
  proof (cases "charAt code i = Some CHR ''/'' \<and> int (length code) > i + 1")
    case False
    then show ?thesis using assms
      by (subst findComments_loop.simps) (auto simp: commentAt_def)
  next
    case True
    show ?thesis
    proof (cases "getCommentType code (i + 1)")
      case None
      then show ?thesis using assms True
        by (subst findComments_loop.simps) (simp add: commentAt_def)
    next
      case (Some t)
      then show ?thesis using assms True a b
        by (cases t; subst findComments_loop.simps) (simp_all add: commentAt_def Comment_of_ok)
    qed
  qed
qed

lemma findComments_loop_closed:
  "0 \<le> i \<Longrightarrow> findComments_loop code i acc =
     Inr (acc @ List.map_filter (commentAt code) (map int [nat i..<length code]))"
proof (induction "length code - nat i" arbitrary: i acc)
  case 0
  then have "\<not> i < int (length code)" by simp
  then show ?case using 0 by (subst findComments_loop.simps) (simp add: List.map_filter_simps)
next
  case (Suc n)
  then have lt: "i < int (length code)" and nn: "0 \<le> i" by auto
  have up: "[nat i..<length code] = nat i # [nat (i + 1)..<length code]"
    using lt nn by (simp add: upt_conv_Cons nat_add_distrib)
  have n: "n = length code - nat (i + 1)" using Suc.hyps(2) nn by (simp add: nat_add_distrib)
  have "findComments_loop code (i + 1) (acc @ (case commentAt code i of None \<Rightarrow> [] | Some c \<Rightarrow> [c]))
        = Inr ((acc @ (case commentAt code i of None \<Rightarrow> [] | Some c \<Rightarrow> [c]))
               @ List.map_filter (commentAt code) (map int [nat (i + 1)..<length code]))"
    using Suc.hyps(1) [OF n] nn by simp
  then show ?case
    using findComments_loop_step [OF nn lt, of acc] up nn
    by (simp add: List.map_filter_simps split: option.splits)
qed

lemma findComments_closed:
  "findComments code = Inr (List.map_filter (commentAt code) (map int [0..<length code]))"
  using findComments_loop_closed [of 0 code "[]"] by (simp add: findComments_def)

lemma set_map_filter:
  "set (List.map_filter f xs) = {y. \<exists>x \<in> set xs. f x = Some y}"
  by (induction xs) (auto split: option.splits)

lemma commentAt_start: "commentAt code p = Some c \<Longrightarrow> startIndex (interval c) = p"
  by (auto simp: commentAt_def split: if_splits option.splits CommentType.splits)

lemma commentAt_range: "commentAt code p = Some c \<Longrightarrow> 0 \<le> p \<and> p < int (length code)"
  by (auto simp: commentAt_def charAt_def split: if_splits)

lemma findComments_set:
  "findComments code = Inr cs \<Longrightarrow> c \<in> set cs \<longleftrightarrow> (\<exists>p. commentAt code p = Some c)"
proof -
  assume "findComments code = Inr cs"
  then have cs: "cs = List.map_filter (commentAt code) (map int [0..<length code])"
    by (simp add: findComments_closed)
  show ?thesis
  proof
    assume "c \<in> set cs"
    then show "\<exists>p. commentAt code p = Some c" by (auto simp: cs set_map_filter)
  next
    assume "\<exists>p. commentAt code p = Some c"
    then obtain p where p: "commentAt code p = Some c" by blast
    then have "0 \<le> p" "p < int (length code)" using commentAt_range by blast+
    then have "p \<in> set (map int [0..<length code])"
      by (auto simp: image_iff intro!: bexI [of _ "nat p"])
    then show "c \<in> set cs" using p by (auto simp: cs set_map_filter)
  qed
qed

lemma sorted_map_filter:
  assumes "\<And>x c. f x = Some c \<Longrightarrow> key c = x"
  shows "sorted_wrt (<) xs \<Longrightarrow> sorted_wrt (<) (map key (List.map_filter f xs))"
proof (induction xs)
  case Nil
  show ?case by (simp add: List.map_filter_simps)
next
  case (Cons x xs)
  then have IH: "sorted_wrt (<) (map key (List.map_filter f xs))" by simp
  have gt: "\<forall>y \<in> set (List.map_filter f xs). x < key y"
    using Cons.prems assms by (auto simp: set_map_filter)
  show ?case
    using IH gt assms by (cases "f x") (auto simp: List.map_filter_simps)
qed

lemma findComments_sorted:
  "\<exists>cs. findComments code = Inr cs \<and> sorted_wrt (<) (map (\<lambda>c. startIndex (interval c)) cs)"
proof -
  have "sorted_wrt (<) (map int [0..<length code])"
    by (simp add: sorted_wrt_map del: upt.simps)
  then show ?thesis
    using sorted_map_filter [of "commentAt code" "\<lambda>c. startIndex (interval c)"] commentAt_start
    by (simp add: findComments_closed)
qed


lemma commentAt_singleLine:
  assumes "i + 1 < int (length code)"
    and "charAt code i = Some CHR ''/''" and "charAt code (i + 1) = Some CHR ''/''"
  shows "commentAt code i =
    Some \<lparr>type = singleLine,
          interval = \<lparr>startIndex = i, endIndex = moveToEndOfLine code (i + 1)\<rparr>\<rparr>"
  using assms by (simp add: commentAt_def getCommentType_def)

text \<open>
  C10. The scan of \<open>findComments\<close> resumes at the next index after a comment opener,
  not after the comment, so every \<open>//\<close>, \<open>/*\<close> in the text yields a comment, also
  inside another comment. The result is ordered by ascending start index and can hold
  overlapping intervals: on \<open>/* // x */\<close> followed by a line feed the scan returns the
  multi-line comment \<open>[0,9]\<close> and the single-line comment \<open>[3,10]\<close> that starts inside it.
\<close>

theorem findComments_sorted_overlapping:
  "(\<forall>code. \<exists>cs. findComments code = Inr cs
       \<and> sorted_wrt (<) (map (\<lambda>c. startIndex (interval c)) cs)
       \<and> (\<forall>p. p + 1 < int (length code) \<and> charAt code p = Some CHR ''/''
              \<and> (charAt code (p + 1) = Some CHR ''/'' \<or> charAt code (p + 1) = Some CHR ''*'')
            \<longrightarrow> (\<exists>c \<in> set cs. startIndex (interval c) = p))) \<and>
   findComments (''/* // x */'' @ [newline]) =
     Inr [\<lparr>type = multiLine, interval = \<lparr>startIndex = 0, endIndex = 9\<rparr>\<rparr>,
          \<lparr>type = singleLine, interval = \<lparr>startIndex = 3, endIndex = 10\<rparr>\<rparr>] \<and>
   includes_ti \<lparr>startIndex = 0, endIndex = 9\<rparr> 3"
proof (intro conjI allI)
  fix code
  obtain cs where cs: "findComments code = Inr cs"
    and so: "sorted_wrt (<) (map (\<lambda>c. startIndex (interval c)) cs)"
    using findComments_sorted by blast
  have "\<forall>p. p + 1 < int (length code) \<and> charAt code p = Some CHR ''/''
              \<and> (charAt code (p + 1) = Some CHR ''/'' \<or> charAt code (p + 1) = Some CHR ''*'')
            \<longrightarrow> (\<exists>c \<in> set cs. startIndex (interval c) = p)"
  proof (intro allI impI)
    fix p
    assume h: "p + 1 < int (length code) \<and> charAt code p = Some CHR ''/''
              \<and> (charAt code (p + 1) = Some CHR ''/'' \<or> charAt code (p + 1) = Some CHR ''*'')"
    then have "commentAt code p \<noteq> None"
      by (auto simp: commentAt_def getCommentType_def)
    then obtain c where c: "commentAt code p = Some c" by blast
    then have "c \<in> set cs" using findComments_set [OF cs] by blast
    then show "\<exists>c \<in> set cs. startIndex (interval c) = p" using commentAt_start [OF c] by blast
  qed
  then show "\<exists>cs. findComments code = Inr cs
       \<and> sorted_wrt (<) (map (\<lambda>c. startIndex (interval c)) cs)
       \<and> (\<forall>p. p + 1 < int (length code) \<and> charAt code p = Some CHR ''/''
              \<and> (charAt code (p + 1) = Some CHR ''/'' \<or> charAt code (p + 1) = Some CHR ''*'')
            \<longrightarrow> (\<exists>c \<in> set cs. startIndex (interval c) = p))"
    using cs so by blast
next
  show "findComments (''/* // x */'' @ [newline]) =
     Inr [\<lparr>type = multiLine, interval = \<lparr>startIndex = 0, endIndex = 9\<rparr>\<rparr>,
          \<lparr>type = singleLine, interval = \<lparr>startIndex = 3, endIndex = 10\<rparr>\<rparr>]"
    by code_simp
next
  show "includes_ti \<lparr>startIndex = 0, endIndex = 9\<rparr> 3" by (simp add: includes_ti_def)
qed

theorem findComments_sorted_overlapping_witness:
  "(\<exists>c \<in> set [\<lparr>type = multiLine, interval = \<lparr>startIndex = 0, endIndex = 9\<rparr>\<rparr>,
                \<lparr>type = singleLine, interval = \<lparr>startIndex = 3, endIndex = 10\<rparr>\<rparr>].
      startIndex (interval c) = 3) \<and>
   sorted_wrt (<) (map (\<lambda>c. startIndex (interval c))
     [\<lparr>type = multiLine, interval = \<lparr>startIndex = 0, endIndex = 9\<rparr>\<rparr>,
      \<lparr>type = singleLine, interval = \<lparr>startIndex = 3, endIndex = 10\<rparr>\<rparr>])"
proof -
  let ?t = "''/* // x */'' @ [newline]"
  let ?r = "[\<lparr>type = multiLine, interval = \<lparr>startIndex = 0, endIndex = 9\<rparr>\<rparr>,
             \<lparr>type = singleLine, interval = \<lparr>startIndex = 3, endIndex = 10\<rparr>\<rparr>]"
  from findComments_sorted_overlapping
  obtain cs where cs: "findComments ?t = Inr cs"
    and so: "sorted_wrt (<) (map (\<lambda>c. startIndex (interval c)) cs)"
    and op: "\<forall>p. p + 1 < int (length ?t) \<and> charAt ?t p = Some CHR ''/''
              \<and> (charAt ?t (p + 1) = Some CHR ''/'' \<or> charAt ?t (p + 1) = Some CHR ''*'')
            \<longrightarrow> (\<exists>c \<in> set cs. startIndex (interval c) = p)"
    by blast
  have r: "findComments ?t = Inr ?r" using findComments_sorted_overlapping by blast
  have eq: "cs = ?r" using cs r by simp
  have "3 + 1 < int (length ?t) \<and> charAt ?t 3 = Some CHR ''/''
         \<and> (charAt ?t (3 + 1) = Some CHR ''/'' \<or> charAt ?t (3 + 1) = Some CHR ''*'')"
    by (simp add: charAt_def)
  with op have "\<exists>c \<in> set cs. startIndex (interval c) = 3" by blast
  then show ?thesis using so unfolding eq by blast
qed

text \<open>
  What the scan makes of a \<open>//\<close> at index \<open>i\<close>: exactly one comment that starts at
  \<open>i\<close>; it is a single-line comment, and its end index is the index of the next line
  feed after \<open>i\<close> when there is one, and otherwise \<open>i + 1\<close>, the index of the second
  slash (\<open>moveToEndOfLine\<close> returns the index it was given).
\<close>

lemma findComments_singleLine_end:
  assumes "i + 1 < int (length code)"
    and "charAt code i = Some CHR ''/''" and "charAt code (i + 1) = Some CHR ''/''"
  shows "\<exists>cs e. findComments code = Inr cs
      \<and> \<lparr>type = singleLine, interval = \<lparr>startIndex = i, endIndex = e\<rparr>\<rparr> \<in> set cs
      \<and> (\<forall>c \<in> set cs. startIndex (interval c) = i \<longrightarrow>
            c = \<lparr>type = singleLine, interval = \<lparr>startIndex = i, endIndex = e\<rparr>\<rparr>)
      \<and> (\<forall>j. i < j \<and> j < int (length code) \<and> charAt code j = Some newline
              \<and> (\<forall>m. i < m \<and> m < j \<longrightarrow> charAt code m \<noteq> Some newline) \<longrightarrow> e = j)
      \<and> ((\<forall>m. i < m \<and> m < int (length code) \<longrightarrow> charAt code m \<noteq> Some newline)
            \<longrightarrow> e = i + 1)"
proof -
  define e where "e = moveToEndOfLine code (i + 1)"
  define c0 where "c0 = \<lparr>type = singleLine, interval = \<lparr>startIndex = i, endIndex = e\<rparr>\<rparr>"
  obtain cs where cs: "findComments code = Inr cs" by (simp add: findComments_closed)
  have at: "commentAt code i = Some c0"
    using commentAt_singleLine [OF assms] by (simp add: c0_def e_def)
  have mem: "c0 \<in> set cs" using findComments_set [OF cs] at by blast
  have uniq: "\<forall>c \<in> set cs. startIndex (interval c) = i \<longrightarrow> c = c0"
  proof (intro ballI impI)
    fix c assume "c \<in> set cs" and st: "startIndex (interval c) = i"
    then obtain p where p: "commentAt code p = Some c" using findComments_set [OF cs] by blast
    then have "p = i" using commentAt_start st by blast
    then show "c = c0" using p at by simp
  qed
  have found: "\<forall>j. i < j \<and> j < int (length code) \<and> charAt code j = Some newline
              \<and> (\<forall>m. i < m \<and> m < j \<longrightarrow> charAt code m \<noteq> Some newline) \<longrightarrow> e = j"
  proof (intro allI impI)
    fix j
    assume h: "i < j \<and> j < int (length code) \<and> charAt code j = Some newline
              \<and> (\<forall>m. i < m \<and> m < j \<longrightarrow> charAt code m \<noteq> Some newline)"
    have "moveToEndOfLine_loop code (i + 1) (i + 1) = j"
      by (rule moveToEndOfLine_loop_found) (use h in auto)
    then show "e = j" by (simp add: e_def moveToEndOfLine_def)
  qed
  have none: "(\<forall>m. i < m \<and> m < int (length code) \<longrightarrow> charAt code m \<noteq> Some newline)
            \<longrightarrow> e = i + 1"
  proof
    assume h: "\<forall>m. i < m \<and> m < int (length code) \<longrightarrow> charAt code m \<noteq> Some newline"
    have "moveToEndOfLine_loop code (i + 1) (i + 1) = i + 1"
      by (rule moveToEndOfLine_loop_none) (use h in auto)
    then show "e = i + 1" by (simp add: e_def moveToEndOfLine_def)
  qed
  show ?thesis using cs mem uniq found none unfolding c0_def by blast
qed

lemma findComments_singleLine_end_examples:
  "findComments ''// x'' =
     Inr [\<lparr>type = singleLine, interval = \<lparr>startIndex = 0, endIndex = 1\<rparr>\<rparr>] \<and>
   findComments (''a//b'' @ [newline] @ ''c'') =
     Inr [\<lparr>type = singleLine, interval = \<lparr>startIndex = 1, endIndex = 4\<rparr>\<rparr>]"
proof -
  let ?t1 = "''// x''" and ?t2 = "''a//b'' @ [newline] @ ''c''"
  have h1: "0 + 1 < int (length ?t1)" "charAt ?t1 0 = Some CHR ''/''"
    "charAt ?t1 (0 + 1) = Some CHR ''/''" by (simp_all add: charAt_def)
  have h2: "1 + 1 < int (length ?t2)" "charAt ?t2 1 = Some CHR ''/''"
    "charAt ?t2 (1 + 1) = Some CHR ''/''" by (simp_all add: charAt_def)
  note w1 = findComments_singleLine_end [OF h1] and w2 = findComments_singleLine_end [OF h2]
  have r1: "findComments ?t1 =
     Inr [\<lparr>type = singleLine, interval = \<lparr>startIndex = 0, endIndex = 1\<rparr>\<rparr>]" by code_simp
  have r2: "findComments ?t2 =
     Inr [\<lparr>type = singleLine, interval = \<lparr>startIndex = 1, endIndex = 4\<rparr>\<rparr>]" by code_simp
  show ?thesis using w1 w2 r1 r2 by simp
qed

text \<open>
  C7. A \<open>//\<close> is to start a single-line comment that ends at the next line feed, or at
  the end of the text when no line feed follows. The code does the first. When no line
  feed follows, \<open>moveToEndOfLine\<close> does not move to the end of the line but returns the
  index it was given, and the comment covers the two slashes only: on \<open>// x\<close>, whose
  last index is 3, the comment is \<open>[0,1]\<close>. The rest of the line is then taken for code:
  on \<open>{ // }\<close> the bracket matcher returns 5, the brace behind the slashes, while with a
  line feed at the end the comment is \<open>[2,6]\<close> and the matcher finds no bracket.
\<close>

theorem findComments_trailing_comment_cut_short:
  "charAt ''// x'' 0 = Some CHR ''/'' \<and> charAt ''// x'' 1 = Some CHR ''/'' \<and>
   newline \<notin> set ''// x'' \<and> int (length ''// x'') - 1 = 3 \<and>
   findComments ''// x'' =
     Inr [\<lparr>type = singleLine, interval = \<lparr>startIndex = 0, endIndex = 1\<rparr>\<rparr>] \<and>
   findComments ''{ // }'' =
     Inr [\<lparr>type = singleLine, interval = \<lparr>startIndex = 2, endIndex = 3\<rparr>\<rparr>] \<and>
   moveToClosingBracket ''{ // }'' 0
     [\<lparr>type = singleLine, interval = \<lparr>startIndex = 2, endIndex = 3\<rparr>\<rparr>] = 5 \<and>
   findComments (''{ // }'' @ [newline]) =
     Inr [\<lparr>type = singleLine, interval = \<lparr>startIndex = 2, endIndex = 6\<rparr>\<rparr>] \<and>
   moveToClosingBracket (''{ // }'' @ [newline]) 0
     [\<lparr>type = singleLine, interval = \<lparr>startIndex = 2, endIndex = 6\<rparr>\<rparr>] = 0"
  by code_simp

section \<open>The bracket matcher\<close>

declare moveToClosingBracket_loop.simps [simp del] skipCommentsBefore.simps [simp del]

text \<open>
  The two examples of the specification: on \<open>{A{B}C}\<close> the matcher returns the index of
  the final brace, and on \<open>{ /* } */ }\<close>, with the comments that \<open>findComments\<close> finds
  there, the index of the brace after the comment.
\<close>

lemma moveToClosingBracket_examples:
  "moveToClosingBracket ''{A{B}C}'' 0 [] = 6 \<and>
   findComments ''{ /* } */ }'' =
     Inr [\<lparr>type = multiLine, interval = \<lparr>startIndex = 2, endIndex = 8\<rparr>\<rparr>] \<and>
   moveToClosingBracket ''{ /* } */ }'' 0
     [\<lparr>type = multiLine, interval = \<lparr>startIndex = 2, endIndex = 8\<rparr>\<rparr>] = 10"
  by code_simp

lemma sum_list_map_zero: "(\<And>x. x \<in> set xs \<Longrightarrow> f x = (0::int)) \<Longrightarrow> sum_list (map f xs) = 0"
  by (induction xs) auto

lemma sum_upto_head: "i \<le> j \<Longrightarrow> sum_list (map f [i..j]) = f i + sum_list (map f [i + 1..j])"
  by (simp add: upto_rec1)

lemma sum_upto_zero_prefix:
  fixes f :: "int \<Rightarrow> int"
  assumes "i \<le> e + 1" "e \<le> j" "\<forall>p. i \<le> p \<and> p \<le> e \<longrightarrow> f p = 0"
  shows "sum_list (map f [i..j]) = sum_list (map f [e + 1..j])"
proof (cases "i = e + 1")
  case True
  then show ?thesis by simp
next
  case False
  then have ie: "i \<le> e" using assms(1) by simp
  have "[i..j] = [i..e] @ [e + 1..j]" using ie assms(2) by (rule upto_split2)
  moreover have "sum_list (map f [i..e]) = 0"
    by (rule sum_list_map_zero) (use assms(3) in auto)
  ultimately show ?thesis by simp
qed

lemma find_append_None:
  "List.find P xs = None \<Longrightarrow> List.find P (xs @ ys) = List.find P ys"
  by (induction xs) (auto split: if_splits)

lemma find_upto_skip:
  assumes "i \<le> e + 1" "\<forall>j. i \<le> j \<and> j \<le> e \<longrightarrow> \<not> P j"
  shows "List.find P [i..n] = List.find P [e + 1..n]"
proof (cases "e \<le> n")
  case True
  show ?thesis
  proof (cases "i = e + 1")
    case True
    then show ?thesis by simp
  next
    case False
    then have ie: "i \<le> e" using assms(1) by simp
    have sp: "[i..n] = [i..e] @ [e + 1..n]" using ie \<open>e \<le> n\<close> by (rule upto_split2)
    have "List.find P [i..e] = None" using assms(2) by (auto simp: find_None_iff)
    then show ?thesis unfolding sp by (rule find_append_None)
  qed
next
  case False
  then have "List.find P [i..n] = None" using assms(2) by (auto simp: find_None_iff)
  moreover have "[e + 1..n] = []" using False by simp
  ultimately show ?thesis by simp
qed



lemma inComment_iff:
  "inComment cs p \<longleftrightarrow>
     (\<exists>b < length cs. startIndex (interval (cs ! b)) \<le> p \<and> p \<le> endIndex (interval (cs ! b)))"
  by (auto simp: inComment_def list_ex_length includes_ti_def)

lemma separateCommentsD:
  assumes "separateComments code cs"
  shows "\<And>a b. a < b \<Longrightarrow> b < length cs \<Longrightarrow>
           endIndex (interval (cs ! a)) < startIndex (interval (cs ! b))"
    and "\<And>a. a < length cs \<Longrightarrow> startIndex (interval (cs ! a)) \<le> endIndex (interval (cs ! a))"
    and "\<And>a. a < length cs \<Longrightarrow> charAt code (endIndex (interval (cs ! a))) \<noteq> Some CHR ''{''"
    and "\<And>a. a < length cs \<Longrightarrow> charAt code (endIndex (interval (cs ! a))) \<noteq> Some CHR ''}''"
  using assms
  by (auto simp: separateComments_def disjointComments_def sorted_wrt_iff_nth_less
      list_all_length)

lemma skipCommentsBefore_spec:
  "k \<le> length cs \<Longrightarrow>
     k \<le> skipCommentsBefore cs index k \<and> skipCommentsBefore cs index k \<le> length cs \<and>
     (\<forall>a. k \<le> a \<and> a < skipCommentsBefore cs index k
          \<longrightarrow> endIndex (interval (cs ! a)) < index) \<and>
     (skipCommentsBefore cs index k < length cs
          \<longrightarrow> \<not> endIndex (interval (cs ! skipCommentsBefore cs index k)) < index)"
proof (induction cs index k rule: skipCommentsBefore.induct)
  case (1 cs index k)
  show ?case
  proof (cases "k < length cs \<and> endIndex (interval (cs ! k)) < index")
    case True
    then have eq: "skipCommentsBefore cs index k = skipCommentsBefore cs index (k + 1)"
      by (subst skipCommentsBefore.simps) simp
    have "k + 1 \<le> length cs" using True by simp
    from "1.IH" [OF True this]
    have IH: "k + 1 \<le> skipCommentsBefore cs index (k + 1)"
      "skipCommentsBefore cs index (k + 1) \<le> length cs"
      "\<forall>a. k + 1 \<le> a \<and> a < skipCommentsBefore cs index (k + 1)
          \<longrightarrow> endIndex (interval (cs ! a)) < index"
      "skipCommentsBefore cs index (k + 1) < length cs
          \<longrightarrow> \<not> endIndex (interval (cs ! skipCommentsBefore cs index (k + 1))) < index"
      by blast+
    have "\<forall>a. k \<le> a \<and> a < skipCommentsBefore cs index (k + 1)
          \<longrightarrow> endIndex (interval (cs ! a)) < index"
    proof (intro allI impI)
      fix a assume a: "k \<le> a \<and> a < skipCommentsBefore cs index (k + 1)"
      show "endIndex (interval (cs ! a)) < index"
      proof (cases "a = k")
        case True
        then show ?thesis using \<open>k < length cs \<and> endIndex (interval (cs ! k)) < index\<close> by simp
      next
        case False
        then have "k + 1 \<le> a" using a by simp
        then show ?thesis using IH(3) a by blast
      qed
    qed
    then show ?thesis unfolding eq using IH(1,2,4) by simp
  next
    case False
    have eq: "skipCommentsBefore cs index k = k"
      by (subst skipCommentsBefore.simps) (simp only: False if_False)
    show ?thesis unfolding eq using False "1.prems" by auto
  qed
qed


lemma moveToClosingBracket_loop_refines:
  "separateComments code cs \<Longrightarrow> 1 \<le> scope
   \<Longrightarrow> (\<forall>a < k. a < length cs \<longrightarrow> endIndex (interval (cs ! a)) < i)
   \<Longrightarrow> (\<forall>b. k \<le> b \<and> b < length cs \<longrightarrow> i \<le> startIndex (interval (cs ! b)))
   \<Longrightarrow> moveToClosingBracket_loop code index cs k scope i =
       (case List.find (\<lambda>j. scope + sum_list (map (braceWeight code cs) [i..j]) = 0)
               [i..int (length code) - 1] of
          Some j \<Rightarrow> j
        | None \<Rightarrow> index)"
proof (induction code index cs k scope i rule: moveToClosingBracket_loop.induct)
  case (1 code index cs k scope i)
  note sep = separateCommentsD [OF "1.prems"(1)]
  note sc = "1.prems"(2) and I1 = "1.prems"(3) and I2 = "1.prems"(4)
  define jump where "jump = (k < length cs \<and> i \<ge> startIndex (interval (cs ! k)))"
  define i' where "i' = (if jump then endIndex (interval (cs ! k)) else i)"
  define k' where "k' = (if jump then k + 1 else k)"
  define bw where "bw = braceWeight code cs"
  define n where "n = int (length code) - 1"
  have eq: "moveToClosingBracket_loop code index cs k scope i =
     (if i < int (length code) then
        (if charAt code i' = Some CHR ''{'' then
              moveToClosingBracket_loop code index cs k' (scope + 1) (i' + 1)
            else if charAt code i' = Some CHR ''}'' then
              (if scope - 1 = 0 then i'
               else moveToClosingBracket_loop code index cs k' (scope - 1) (i' + 1))
            else moveToClosingBracket_loop code index cs k' scope (i' + 1))
      else index)"
    unfolding jump_def i'_def k'_def
    by (subst moveToClosingBracket_loop.simps) (simp add: Let_def)
  show ?case
  proof (cases "i < int (length code)")
    case False
    then have "[i..int (length code) - 1] = []" by simp
    then show ?thesis using False by (simp add: eq)
  next
    case True
    note IH = "1.IH" [OF True jump_def i'_def k'_def]
    have in_n: "i \<le> n" using True by (simp add: n_def)
    show ?thesis
    proof (cases jump)
      case True
      then have kl: "k < length cs" and st: "startIndex (interval (cs ! k)) = i"
        using I2 by (auto simp: jump_def)
      have i'e: "i' = endIndex (interval (cs ! k))" and k'e: "k' = k + 1"
        using True by (simp_all add: i'_def k'_def)
      have ie: "i \<le> i'" using sep(2) [OF kl] st i'e by simp
      have nb: "charAt code i' \<noteq> Some CHR ''{''" "charAt code i' \<noteq> Some CHR ''}''"
        using sep(3,4) [OF kl] i'e by simp_all
      have zero: "\<forall>p. i \<le> p \<and> p \<le> i' \<longrightarrow> bw p = 0"
      proof (intro allI impI)
        fix p assume "i \<le> p \<and> p \<le> i'"
        then have "inComment cs p" using kl st i'e by (auto simp: inComment_iff)
        then show "bw p = 0" by (simp add: bw_def braceWeight_def)
      qed
      have I1': "\<forall>a < k'. a < length cs \<longrightarrow> endIndex (interval (cs ! a)) < i' + 1"
      proof (intro allI impI)
        fix a assume a: "a < k'" "a < length cs"
        show "endIndex (interval (cs ! a)) < i' + 1"
        proof (cases "a = k")
          case True
          then show ?thesis using i'e by simp
        next
          case False
          then have "a < k" using a k'e by simp
          then show ?thesis using I1 a(2) ie by fastforce
        qed
      qed
      have I2': "\<forall>b. k' \<le> b \<and> b < length cs \<longrightarrow> i' + 1 \<le> startIndex (interval (cs ! b))"
      proof (intro allI impI)
        fix b assume b: "k' \<le> b \<and> b < length cs"
        then have "k < b" using k'e by simp
        from sep(1) [OF this] b show "i' + 1 \<le> startIndex (interval (cs ! b))"
          using i'e by simp
      qed
      have loop: "moveToClosingBracket_loop code index cs k scope i =
                  moveToClosingBracket_loop code index cs k' scope (i' + 1)"
        using \<open>i < int (length code)\<close> nb by (simp add: eq)
      have "moveToClosingBracket_loop code index cs k' scope (i' + 1) =
         (case List.find (\<lambda>j. scope + sum_list (map (braceWeight code cs) [i' + 1..j]) = 0)
               [i' + 1..int (length code) - 1] of
          Some j \<Rightarrow> j | None \<Rightarrow> index)"
        by (rule IH(3) [OF nb "1.prems"(1) sc I1' I2'])
      moreover have "List.find (\<lambda>j. scope + sum_list (map bw [i..j]) = 0) [i..n] =
                     List.find (\<lambda>j. scope + sum_list (map bw [i' + 1..j]) = 0) [i' + 1..n]"
      proof -
        have "List.find (\<lambda>j. scope + sum_list (map bw [i..j]) = 0) [i..n] =
              List.find (\<lambda>j. scope + sum_list (map bw [i..j]) = 0) [i' + 1..n]"
        proof (rule find_upto_skip)
          show "i \<le> i' + 1" using ie by simp
          show "\<forall>j. i \<le> j \<and> j \<le> i' \<longrightarrow> \<not> scope + sum_list (map bw [i..j]) = 0"
          proof (intro allI impI)
            fix j assume j: "i \<le> j \<and> j \<le> i'"
            have "sum_list (map bw [i..j]) = 0"
              by (rule sum_list_map_zero) (use zero j in auto)
            then show "\<not> scope + sum_list (map bw [i..j]) = 0" using sc by simp
          qed
        qed
        also have "\<dots> = List.find (\<lambda>j. scope + sum_list (map bw [i' + 1..j]) = 0) [i' + 1..n]"
        proof (rule find_cong [OF refl])
          fix j assume "j \<in> set [i' + 1..n]"
          then have "i' \<le> j" by simp
          have "sum_list (map bw [i..j]) = sum_list (map bw [i' + 1..j])"
            by (rule sum_upto_zero_prefix) (use ie \<open>i' \<le> j\<close> zero in auto)
          then show "(scope + sum_list (map bw [i..j]) = 0) =
                     (scope + sum_list (map bw [i' + 1..j]) = 0)" by simp
        qed
        finally show ?thesis .
      qed
      ultimately show ?thesis unfolding loop by (simp add: bw_def n_def)
    next
      case False
      then have i'e: "i' = i" and k'e: "k' = k" by (simp_all add: i'_def k'_def)
      have nj: "\<not> (k < length cs \<and> startIndex (interval (cs ! k)) \<le> i)"
        using False by (simp add: jump_def)
      have later: "i < startIndex (interval (cs ! b))" if b: "k \<le> b" "b < length cs" for b
      proof (cases "b = k")
        case True
        then show ?thesis using nj b by auto
      next
        case False
        then have kb: "k < b" using b by simp
        then have kl: "k < length cs" using b by simp
        have "i \<le> startIndex (interval (cs ! k))" using I2 kl by simp
        also have "\<dots> \<le> endIndex (interval (cs ! k))" by (rule sep(2) [OF kl])
        also have "\<dots> < startIndex (interval (cs ! b))" by (rule sep(1) [OF kb b(2)])
        finally show ?thesis .
      qed
      have nc: "\<not> inComment cs i"
      proof
        assume "inComment cs i"
        then obtain b where b: "b < length cs" "startIndex (interval (cs ! b)) \<le> i"
          "i \<le> endIndex (interval (cs ! b))" by (auto simp: inComment_iff)
        show False
        proof (cases "b < k")
          case True
          then show ?thesis using I1 b by fastforce
        next
          case False
          then show ?thesis using later [of b] b by simp
        qed
      qed
      have I1': "\<forall>a < k. a < length cs \<longrightarrow> endIndex (interval (cs ! a)) < i + 1"
        using I1 by fastforce
      have I2': "\<forall>b. k \<le> b \<and> b < length cs \<longrightarrow> i + 1 \<le> startIndex (interval (cs ! b))"
        using later by fastforce
      have up: "[i..n] = i # [i + 1..n]" using in_n by (rule upto_rec1)
      have shift: "List.find (\<lambda>j. scope + sum_list (map bw [i..j]) = 0) [i + 1..n] =
                   List.find (\<lambda>j. (scope + bw i) + sum_list (map bw [i + 1..j]) = 0) [i + 1..n]"
      proof (rule find_cong [OF refl])
        fix j assume "j \<in> set [i + 1..n]"
        then have "i \<le> j" by simp
        then show "(scope + sum_list (map bw [i..j]) = 0) =
                   (scope + bw i + sum_list (map bw [i + 1..j]) = 0)"
          by (simp add: sum_upto_head add.assoc)
      qed
      have spec: "List.find (\<lambda>j. scope + sum_list (map bw [i..j]) = 0) [i..n] =
           (if scope + bw i = 0 then Some i
            else List.find (\<lambda>j. (scope + bw i) + sum_list (map bw [i + 1..j]) = 0) [i + 1..n])"
        unfolding up using shift by simp
      consider (op) "charAt code i = Some CHR ''{''"
        | (cl0) "charAt code i = Some CHR ''}''" "scope - 1 = 0"
        | (cl) "charAt code i = Some CHR ''}''" "scope - 1 \<noteq> 0"
        | (other) "charAt code i \<noteq> Some CHR ''{''" "charAt code i \<noteq> Some CHR ''}''"
        by auto
      then show ?thesis
      proof cases
        case op
        then have w: "bw i = 1" using nc by (simp add: bw_def braceWeight_def)
        have "moveToClosingBracket_loop code index cs k (scope + 1) (i + 1) =
         (case List.find (\<lambda>j. scope + 1 + sum_list (map (braceWeight code cs) [i + 1..j]) = 0)
               [i + 1..int (length code) - 1] of
          Some j \<Rightarrow> j | None \<Rightarrow> index)"
          using IH(1) [unfolded i'e k'e, OF op "1.prems"(1) _ I1' I2'] sc by simp
        then show ?thesis
          unfolding eq using True op sc spec w by (simp add: i'e k'e bw_def n_def)
      next
        case cl0
        then have w: "bw i = - 1" using nc by (simp add: bw_def braceWeight_def)
        show ?thesis
          unfolding eq using True cl0 spec w by (simp add: i'e k'e bw_def n_def)
      next
        case cl
        then have w: "bw i = - 1" using nc by (simp add: bw_def braceWeight_def)
        have op': "charAt code i \<noteq> Some CHR ''{''" using cl by simp
        have "moveToClosingBracket_loop code index cs k (scope - 1) (i + 1) =
         (case List.find (\<lambda>j. scope - 1 + sum_list (map (braceWeight code cs) [i + 1..j]) = 0)
               [i + 1..int (length code) - 1] of
          Some j \<Rightarrow> j | None \<Rightarrow> index)"
          using IH(2) [unfolded i'e k'e, OF op' cl "1.prems"(1) _ I1' I2'] sc cl(2) by simp
        then show ?thesis
          unfolding eq using True cl sc spec w by (simp add: i'e k'e bw_def n_def)
      next
        case other
        then have w: "bw i = 0" by (simp add: bw_def braceWeight_def)
        have "moveToClosingBracket_loop code index cs k scope (i + 1) =
         (case List.find (\<lambda>j. scope + sum_list (map (braceWeight code cs) [i + 1..j]) = 0)
               [i + 1..int (length code) - 1] of
          Some j \<Rightarrow> j | None \<Rightarrow> index)"
          using IH(3) [unfolded i'e k'e, OF other "1.prems"(1) sc I1' I2'] by simp
        then show ?thesis
          unfolding eq using True other sc spec w by (simp add: i'e k'e bw_def n_def)
      qed
    qed
  qed
qed


lemma moveToClosingBracket_refines:
  assumes sep: "separateComments code cs" and out: "\<not> inComment cs index"
  shows "moveToClosingBracket code index cs =
           (case matchingBracket code cs index of Some j \<Rightarrow> j | None \<Rightarrow> index)"
proof -
  define k0 where "k0 = skipCommentsBefore cs index 0"
  from skipCommentsBefore_spec [of 0 cs index]
  have k0: "k0 \<le> length cs"
    "\<forall>a. a < k0 \<longrightarrow> endIndex (interval (cs ! a)) < index"
    "k0 < length cs \<longrightarrow> \<not> endIndex (interval (cs ! k0)) < index"
    by (simp_all add: k0_def)
  note sepD = separateCommentsD [OF sep]
  have I1: "\<forall>a < k0. a < length cs \<longrightarrow> endIndex (interval (cs ! a)) < index + 1"
    using k0(2) by fastforce
  have I2: "\<forall>b. k0 \<le> b \<and> b < length cs \<longrightarrow> index + 1 \<le> startIndex (interval (cs ! b))"
  proof (intro allI impI)
    fix b assume b: "k0 \<le> b \<and> b < length cs"
    then have kl: "k0 < length cs" by simp
    have ge: "index \<le> endIndex (interval (cs ! k0))" using k0(3) kl by simp
    show "index + 1 \<le> startIndex (interval (cs ! b))"
    proof (cases "b = k0")
      case True
      have "\<not> (startIndex (interval (cs ! k0)) \<le> index \<and> index \<le> endIndex (interval (cs ! k0)))"
        using out kl by (auto simp: inComment_iff)
      then show ?thesis using ge True by simp
    next
      case False
      then have "k0 < b" using b by simp
      from sepD(1) [OF this] b ge show ?thesis by simp
    qed
  qed
  have "moveToClosingBracket_loop code index cs k0 1 (index + 1) =
       (case List.find (\<lambda>j. 1 + sum_list (map (braceWeight code cs) [index + 1..j]) = 0)
               [index + 1..int (length code) - 1] of
          Some j \<Rightarrow> j | None \<Rightarrow> index)"
    by (rule moveToClosingBracket_loop_refines [OF sep _ I1 I2]) simp
  then show ?thesis
    by (simp add: moveToClosingBracket_def matchingBracket_def nestingAt_def k0_def)
qed

lemma moveToClosingBracket_loop_result:
  "moveToClosingBracket_loop code index cs k scope i = index \<or>
   charAt code (moveToClosingBracket_loop code index cs k scope i) = Some CHR ''}''"
proof (induction code index cs k scope i rule: moveToClosingBracket_loop.induct)
  case (1 code index cs k scope i)
  define jump where "jump = (k < length cs \<and> i \<ge> startIndex (interval (cs ! k)))"
  define i' where "i' = (if jump then endIndex (interval (cs ! k)) else i)"
  define k' where "k' = (if jump then k + 1 else k)"
  have eq: "moveToClosingBracket_loop code index cs k scope i =
     (if i < int (length code) then
        (if charAt code i' = Some CHR ''{'' then
              moveToClosingBracket_loop code index cs k' (scope + 1) (i' + 1)
            else if charAt code i' = Some CHR ''}'' then
              (if scope - 1 = 0 then i'
               else moveToClosingBracket_loop code index cs k' (scope - 1) (i' + 1))
            else moveToClosingBracket_loop code index cs k' scope (i' + 1))
      else index)"
    unfolding jump_def i'_def k'_def
    by (subst moveToClosingBracket_loop.simps) (simp add: Let_def)
  show ?case
  proof (cases "i < int (length code)")
    case False
    then show ?thesis by (simp add: eq)
  next
    case True
    note IH = "1.IH" [OF True jump_def i'_def k'_def]
    consider (op) "charAt code i' = Some CHR ''{''"
      | (cl0) "charAt code i' = Some CHR ''}''" "scope - 1 = 0"
      | (cl) "charAt code i' = Some CHR ''}''" "scope - 1 \<noteq> 0"
      | (other) "charAt code i' \<noteq> Some CHR ''{''" "charAt code i' \<noteq> Some CHR ''}''"
      by auto
    then show ?thesis
    proof cases
      case op
      then show ?thesis unfolding eq using IH(1) True by simp
    next
      case cl0
      then show ?thesis unfolding eq using True by simp
    next
      case cl
      then show ?thesis unfolding eq using IH(2) True by simp
    next
      case other
      then show ?thesis unfolding eq using IH(3) True by simp
    qed
  qed
qed

text \<open>
  On the examples, the matching bracket in the words of the specification: 6, 10, and,
  for the text with a comment opener inside a comment, 14.
\<close>

lemma matchingBracket_examples:
  "matchingBracket ''{A{B}C}'' [] 0 = Some 6 \<and>
   matchingBracket ''{ /* } */ }''
     [\<lparr>type = multiLine, interval = \<lparr>startIndex = 2, endIndex = 8\<rparr>\<rparr>] 0 = Some 10 \<and>
   matchingBracket (''{/* // '' @ [newline] @ '' } */ }'')
     [\<lparr>type = multiLine, interval = \<lparr>startIndex = 1, endIndex = 12\<rparr>\<rparr>,
      \<lparr>type = singleLine, interval = \<lparr>startIndex = 4, endIndex = 7\<rparr>\<rparr>] 0 = Some 14"
  by code_simp

text \<open>
  What holds of the result for every comment list: it is the input index unless it is
  the index of a close brace. For a list of separate comments and an index outside them,
  the result is the input index whenever the text has no index after it where the
  nesting, counted outside the comments, is 0.
\<close>

lemma moveToClosingBracket_not_found:
  "(moveToClosingBracket code index cs = index \<or>
    charAt code (moveToClosingBracket code index cs) = Some CHR ''}'') \<and>
   (separateComments code cs \<and> \<not> inComment cs index
      \<and> matchingBracket code cs index = None
    \<longrightarrow> moveToClosingBracket code index cs = index)"
proof
  show "moveToClosingBracket code index cs = index \<or>
    charAt code (moveToClosingBracket code index cs) = Some CHR ''}''"
    unfolding moveToClosingBracket_def by (rule moveToClosingBracket_loop_result)
  show "separateComments code cs \<and> \<not> inComment cs index
      \<and> matchingBracket code cs index = None
    \<longrightarrow> moveToClosingBracket code index cs = index"
    using moveToClosingBracket_refines [of code cs index] by simp
qed

lemma moveToClosingBracket_not_found_examples:
  "separateComments ''{A{B}C'' [] \<and> \<not> inComment [] 0 \<and>
   matchingBracket ''{A{B}C'' [] 0 = None \<and>
   moveToClosingBracket ''{A{B}C'' 0 [] = 0 \<and>
   findComments ''{ /* } */ '' =
     Inr [\<lparr>type = multiLine, interval = \<lparr>startIndex = 2, endIndex = 8\<rparr>\<rparr>] \<and>
   separateComments ''{ /* } */ ''
     [\<lparr>type = multiLine, interval = \<lparr>startIndex = 2, endIndex = 8\<rparr>\<rparr>] \<and>
   \<not> inComment [\<lparr>type = multiLine, interval = \<lparr>startIndex = 2, endIndex = 8\<rparr>\<rparr>] 0 \<and>
   matchingBracket ''{ /* } */ ''
     [\<lparr>type = multiLine, interval = \<lparr>startIndex = 2, endIndex = 8\<rparr>\<rparr>] 0 = None \<and>
   moveToClosingBracket ''{ /* } */ '' 0
     [\<lparr>type = multiLine, interval = \<lparr>startIndex = 2, endIndex = 8\<rparr>\<rparr>] = 0"
proof -
  let ?c = "[\<lparr>type = multiLine, interval = \<lparr>startIndex = 2, endIndex = 8\<rparr>\<rparr>]"
  have a: "separateComments ''{A{B}C'' []" "\<not> inComment [] 0"
    "matchingBracket ''{A{B}C'' [] 0 = None"
    by code_simp+
  have b: "separateComments ''{ /* } */ '' ?c" "\<not> inComment ?c 0"
    "matchingBracket ''{ /* } */ '' ?c 0 = None"
    by code_simp+
  have f: "findComments ''{ /* } */ '' = Inr ?c" by code_simp
  from moveToClosingBracket_not_found [of "''{A{B}C''" 0 "[]"] a
  have r1: "moveToClosingBracket ''{A{B}C'' 0 [] = 0" by blast
  from moveToClosingBracket_not_found [of "''{ /* } */ ''" 0 ?c] b
  have r2: "moveToClosingBracket ''{ /* } */ '' 0 ?c = 0" by blast
  show ?thesis using a b f r1 r2 by simp
qed

text \<open>
  C3. The matcher is to return the index where the nesting returns to 0 while skipping
  every index range covered by a comment. The code does so on the two examples above,
  but not on every ordered comment list that \<open>findComments\<close> returns: on the text
  \<open>{/* // \<close>, line feed, \<open> } */ }\<close> the comments are the multi-line comment \<open>[1,12]\<close> and
  the single-line comment \<open>[4,7]\<close> inside it. After the jump to 12 the scan pointer is
  past the start of the second comment, so it is set back to 7, and the brace at index 9,
  inside the multi-line comment, is counted: the matcher returns 9, not 14.
\<close>

theorem moveToClosingBracket_overlapping_comments:
  "findComments (''{/* // '' @ [newline] @ '' } */ }'') =
     Inr [\<lparr>type = multiLine, interval = \<lparr>startIndex = 1, endIndex = 12\<rparr>\<rparr>,
          \<lparr>type = singleLine, interval = \<lparr>startIndex = 4, endIndex = 7\<rparr>\<rparr>] \<and>
   moveToClosingBracket (''{/* // '' @ [newline] @ '' } */ }'') 0
     [\<lparr>type = multiLine, interval = \<lparr>startIndex = 1, endIndex = 12\<rparr>\<rparr>,
      \<lparr>type = singleLine, interval = \<lparr>startIndex = 4, endIndex = 7\<rparr>\<rparr>] = 9 \<and>
   includes_ti \<lparr>startIndex = 1, endIndex = 12\<rparr> 9 \<and>
   charAt (''{/* // '' @ [newline] @ '' } */ }'') 14 = Some CHR ''}'' \<and>
   \<not> includes_ti \<lparr>startIndex = 1, endIndex = 12\<rparr> 14 \<and>
   \<not> includes_ti \<lparr>startIndex = 4, endIndex = 7\<rparr> 14 \<and>
   matchingBracket (''{/* // '' @ [newline] @ '' } */ }'')
     [\<lparr>type = multiLine, interval = \<lparr>startIndex = 1, endIndex = 12\<rparr>\<rparr>,
      \<lparr>type = singleLine, interval = \<lparr>startIndex = 4, endIndex = 7\<rparr>\<rparr>] 0 = Some 14"
  by code_simp

text \<open>
  C8. When no matching close brace exists before the end of the text,
  \<open>moveToClosingBracket\<close> is to return its input index. It does not for every comment
  list: the text \<open>{/* // \<close>, line feed, \<open> } */ \<close> has one close brace, at index 9 inside
  the multi-line comment \<open>[1,12]\<close>, and none outside the comments, so the open brace at 0
  has no matching bracket. With the comments that \<open>findComments\<close> finds, the scan is set
  back to 7 after its jump to 12, as on the text above, and the matcher returns 9, not 0.
\<close>

theorem moveToClosingBracket_match_in_comment:
  "findComments (''{/* // '' @ [newline] @ '' } */ '') =
     Inr [\<lparr>type = multiLine, interval = \<lparr>startIndex = 1, endIndex = 12\<rparr>\<rparr>,
          \<lparr>type = singleLine, interval = \<lparr>startIndex = 4, endIndex = 7\<rparr>\<rparr>] \<and>
   filter (\<lambda>p. charAt (''{/* // '' @ [newline] @ '' } */ '') p = Some CHR ''}'')
     [0..int (length (''{/* // '' @ [newline] @ '' } */ '')) - 1] = [9] \<and>
   includes_ti \<lparr>startIndex = 1, endIndex = 12\<rparr> 9 \<and>
   \<not> inComment
     [\<lparr>type = multiLine, interval = \<lparr>startIndex = 1, endIndex = 12\<rparr>\<rparr>,
      \<lparr>type = singleLine, interval = \<lparr>startIndex = 4, endIndex = 7\<rparr>\<rparr>] 0 \<and>
   matchingBracket (''{/* // '' @ [newline] @ '' } */ '')
     [\<lparr>type = multiLine, interval = \<lparr>startIndex = 1, endIndex = 12\<rparr>\<rparr>,
      \<lparr>type = singleLine, interval = \<lparr>startIndex = 4, endIndex = 7\<rparr>\<rparr>] 0 = None \<and>
   moveToClosingBracket (''{/* // '' @ [newline] @ '' } */ '') 0
     [\<lparr>type = multiLine, interval = \<lparr>startIndex = 1, endIndex = 12\<rparr>\<rparr>,
      \<lparr>type = singleLine, interval = \<lparr>startIndex = 4, endIndex = 7\<rparr>\<rparr>] = 9"
  by code_simp

text \<open>
  The same through \<open>findClasses\<close>: the body of the class in \<open>class A {/* // \<close>, line
  feed, \<open> } */ }\<close> is made to end at index 17, inside the comment \<open>[9,20]\<close>, and not at
  the brace at 22.
\<close>

lemma findClasses_body_ends_in_comment:
  "findComments (''class A {/* // '' @ [newline] @ '' } */ }'') =
     Inr [\<lparr>type = multiLine, interval = \<lparr>startIndex = 9, endIndex = 20\<rparr>\<rparr>,
          \<lparr>type = singleLine, interval = \<lparr>startIndex = 12, endIndex = 15\<rparr>\<rparr>] \<and>
   findClasses (''class A {/* // '' @ [newline] @ '' } */ }'')
     [\<lparr>type = multiLine, interval = \<lparr>startIndex = 9, endIndex = 20\<rparr>\<rparr>,
      \<lparr>type = singleLine, interval = \<lparr>startIndex = 12, endIndex = 15\<rparr>\<rparr>]
     (\<lambda>code. [\<lparr>matchIndex = 0, matched = ''class A '', group1 = ''A''\<rparr>]) =
     Inr ([0], [\<lparr>name = ''A'',
                 comments = [\<lparr>type = singleLine,
                              interval = \<lparr>startIndex = 12, endIndex = 15\<rparr>\<rparr>],
                 signatureInterval = \<lparr>startIndex = 0, endIndex = 7\<rparr>,
                 bodyInterval = \<lparr>startIndex = 8, endIndex = 17\<rparr>,
                 classInterval = \<lparr>startIndex = 0, endIndex = 17\<rparr>,
                 innerClasses = [], outherClass = None\<rparr>]) \<and>
   matchingBracket (''class A {/* // '' @ [newline] @ '' } */ }'')
     [\<lparr>type = multiLine, interval = \<lparr>startIndex = 9, endIndex = 20\<rparr>\<rparr>,
      \<lparr>type = singleLine, interval = \<lparr>startIndex = 12, endIndex = 15\<rparr>\<rparr>] 8 = Some 22"
  by code_simp

section \<open>The class tree\<close>

declare getScope.simps [code] getEnclosingClass.simps [code]

declare parseClasses.simps [simp del]

lemma wellNestedD:
  assumes "wellNested h" "r < length h"
  shows "wellNestedClass h (h ! r)"
  using assms by (simp add: wellNested_def list_all_length)

lemma getScope_root: "this < length h \<Longrightarrow> outherClass (h ! this) = None \<Longrightarrow> getScope h this = Some 1"
  by (subst getScope.simps) simp

lemma getScope_inner:
  "this < length h \<Longrightarrow> outherClass (h ! this) = Some outher \<Longrightarrow>
   getScope h this = map_option (\<lambda>s. s + 1) (getScope h outher)"
  by (subst getScope.simps) (cases "getScope h outher"; simp)

lemma getScope_returns:
  assumes wn: "wellNested h"
  shows "this < length h \<Longrightarrow> \<exists>s. getScope h this = Some s \<and> 1 \<le> s"
proof (induction "nat (startIndex (classInterval (h ! this)))" arbitrary: this rule: less_induct)
  case less
  note wc = wellNestedD [OF wn less.prems]
  show ?case
  proof (cases "outherClass (h ! this)")
    case None
    then show ?thesis using getScope_root [OF less.prems] by simp
  next
    case (Some p)
    then have p: "p < length h" and lw: "liesWithin (classInterval (h ! this)) (bodyInterval (h ! p))"
      using wc by (simp_all add: wellNestedClass_def)
    note wp = wellNestedD [OF wn p]
    have "startIndex (classInterval (h ! p)) < startIndex (classInterval (h ! this))"
      using wp lw by (simp add: wellNestedClass_def liesWithin_def)
    moreover have "0 \<le> startIndex (classInterval (h ! p))"
      using wp by (simp add: wellNestedClass_def validInterval_def)
    ultimately have "nat (startIndex (classInterval (h ! p))) < nat (startIndex (classInterval (h ! this)))"
      by simp
    then obtain s where "getScope h p = Some s" "1 \<le> s" using less.hyps p by blast
    then show ?thesis using getScope_inner [OF less.prems Some] by simp
  qed
qed

lemma getEnclosingClass_outside:
  "this < length h \<Longrightarrow> \<not> includes_ti (classInterval (h ! this)) index \<Longrightarrow>
   getEnclosingClass h this index = Some None"
  by (subst getEnclosingClass.simps) simp

lemma getEnclosingClass_inside:
  "this < length h \<Longrightarrow> includes_ti (classInterval (h ! this)) index \<Longrightarrow>
   getEnclosingClass h this index =
   firstPointed (\<lambda>innerClass. getEnclosingClass h innerClass index) (innerClasses (h ! this)) this"
  by (subst getEnclosingClass.simps) simp

lemma firstPointed_none:
  "(\<forall>c \<in> set ics. f c = Some None) \<Longrightarrow> firstPointed f ics this = Some (Some this)"
  by (induction ics) simp_all

lemma firstPointed_first:
  "(\<forall>c \<in> set pre. f c = Some None) \<Longrightarrow> f c \<noteq> Some None \<Longrightarrow>
   firstPointed f (pre @ c # post) this = f c"
proof (induction pre)
  case Nil
  then show ?case by (cases "f c") (auto split: option.splits)
next
  case (Cons a pre)
  then show ?case by simp
qed

lemma firstPointed_cases:
  assumes "\<forall>c \<in> set ics. f c \<noteq> None"
  shows "firstPointed f ics this = Some (Some this) \<and> (\<forall>c \<in> set ics. f c = Some None)
       \<or> (\<exists>pre c post p. ics = pre @ c # post \<and> (\<forall>x \<in> set pre. f x = Some None)
             \<and> f c = Some (Some p) \<and> firstPointed f ics this = Some (Some p))"
  using assms
proof (induction ics)
  case Nil
  then show ?case by simp
next
  case (Cons a ics)
  then obtain y where y: "f a = Some y" by auto
  show ?case
  proof (cases y)
    case (Some p)
    then have "a # ics = [] @ a # ics \<and> (\<forall>x \<in> set []. f x = Some None)
             \<and> f a = Some (Some p) \<and> firstPointed f (a # ics) this = Some (Some p)"
      using y by simp
    then show ?thesis by blast
  next
    case None
    from Cons have IH: "firstPointed f ics this = Some (Some this) \<and> (\<forall>c \<in> set ics. f c = Some None)
       \<or> (\<exists>pre c post p. ics = pre @ c # post \<and> (\<forall>x \<in> set pre. f x = Some None)
             \<and> f c = Some (Some p) \<and> firstPointed f ics this = Some (Some p))" by simp
    then show ?thesis
    proof
      assume "firstPointed f ics this = Some (Some this) \<and> (\<forall>c \<in> set ics. f c = Some None)"
      then show ?thesis using y None by simp
    next
      assume "\<exists>pre c post p. ics = pre @ c # post \<and> (\<forall>x \<in> set pre. f x = Some None)
             \<and> f c = Some (Some p) \<and> firstPointed f ics this = Some (Some p)"
      then obtain pre c post p where h: "ics = pre @ c # post" "\<forall>x \<in> set pre. f x = Some None"
             "f c = Some (Some p)" "firstPointed f ics this = Some (Some p)" by blast
      have "a # ics = (a # pre) @ c # post \<and> (\<forall>x \<in> set (a # pre). f x = Some None)
             \<and> f c = Some (Some p) \<and> firstPointed f (a # ics) this = Some (Some p)"
        using h y None by simp
      then show ?thesis by blast
    qed
  qed
qed


lemma getEnclosingClass_returns:
  assumes wn: "wellNested h"
  shows "this < length h \<Longrightarrow>
    \<exists>y. getEnclosingClass h this index = Some y
      \<and> (y = None \<longleftrightarrow> \<not> includes_ti (classInterval (h ! this)) index)
      \<and> (\<forall>x. y = Some x \<longrightarrow> x < length h \<and> includes_ti (classInterval (h ! x)) index
             \<and> (x = this \<and> (\<forall>c \<in> set (innerClasses (h ! this)).
                                \<not> includes_ti (classInterval (h ! c)) index)
                \<or> startIndex (classInterval (h ! this)) < startIndex (classInterval (h ! x))))"
proof (induction "nat (endIndex (classInterval (h ! this)) - startIndex (classInterval (h ! this)))"
       arbitrary: this rule: less_induct)
  case less
  note wc = wellNestedD [OF wn less.prems]
  let ?f = "\<lambda>innerClass. getEnclosingClass h innerClass index"
  show ?case
  proof (cases "includes_ti (classInterval (h ! this)) index")
    case False
    then show ?thesis using getEnclosingClass_outside [OF less.prems False] by simp
  next
    case True
    have eq: "getEnclosingClass h this index = firstPointed ?f (innerClasses (h ! this)) this"
      by (rule getEnclosingClass_inside [OF less.prems True])
    have child: "\<exists>y. ?f c = Some y
        \<and> (y = None \<longleftrightarrow> \<not> includes_ti (classInterval (h ! c)) index)
        \<and> (\<forall>x. y = Some x \<longrightarrow> x < length h \<and> includes_ti (classInterval (h ! x)) index
             \<and> startIndex (classInterval (h ! this)) < startIndex (classInterval (h ! x)))"
      if c: "c \<in> set (innerClasses (h ! this))" for c
    proof -
      have cl: "c < length h" and lw: "liesWithin (classInterval (h ! c)) (bodyInterval (h ! this))"
        using wc c by (auto simp: wellNestedClass_def list_all_iff)
      note wcc = wellNestedD [OF wn cl]
      have st: "startIndex (classInterval (h ! this)) < startIndex (classInterval (h ! c))"
        using wc lw by (simp add: wellNestedClass_def liesWithin_def)
      have en: "endIndex (classInterval (h ! c)) \<le> endIndex (classInterval (h ! this))"
        using wc lw by (simp add: wellNestedClass_def liesWithin_def)
      have va: "startIndex (classInterval (h ! c)) \<le> endIndex (classInterval (h ! c))"
        using wcc by (simp add: wellNestedClass_def validInterval_def)
      have "nat (endIndex (classInterval (h ! c)) - startIndex (classInterval (h ! c)))
            < nat (endIndex (classInterval (h ! this)) - startIndex (classInterval (h ! this)))"
        using st en va by simp
      from less.hyps [OF this cl]
      obtain y where y: "?f c = Some y"
        "y = None \<longleftrightarrow> \<not> includes_ti (classInterval (h ! c)) index"
        "\<forall>x. y = Some x \<longrightarrow> x < length h \<and> includes_ti (classInterval (h ! x)) index
             \<and> (x = c \<and> (\<forall>d \<in> set (innerClasses (h ! c)).
                             \<not> includes_ti (classInterval (h ! d)) index)
                \<or> startIndex (classInterval (h ! c)) < startIndex (classInterval (h ! x)))"
        by blast
      have "\<forall>x. y = Some x \<longrightarrow> x < length h \<and> includes_ti (classInterval (h ! x)) index
             \<and> startIndex (classInterval (h ! this)) < startIndex (classInterval (h ! x))"
        using y(3) st by auto
      then show ?thesis using y(1,2) by blast
    qed
    then have "\<forall>c \<in> set (innerClasses (h ! this)). ?f c \<noteq> None" by fastforce
    from firstPointed_cases [OF this, of this]
    show ?thesis
    proof
      assume a: "firstPointed ?f (innerClasses (h ! this)) this = Some (Some this)
        \<and> (\<forall>c \<in> set (innerClasses (h ! this)). ?f c = Some None)"
      have "\<forall>c \<in> set (innerClasses (h ! this)). \<not> includes_ti (classInterval (h ! c)) index"
      proof
        fix c assume c: "c \<in> set (innerClasses (h ! this))"
        with a have "?f c = Some None" by blast
        with child [OF c] show "\<not> includes_ti (classInterval (h ! c)) index" by auto
      qed
      then show ?thesis using a eq True less.prems by simp
    next
      assume "\<exists>pre c post p. innerClasses (h ! this) = pre @ c # post
             \<and> (\<forall>x \<in> set pre. ?f x = Some None)
             \<and> ?f c = Some (Some p)
             \<and> firstPointed ?f (innerClasses (h ! this)) this = Some (Some p)"
      then obtain pre c post p where h: "innerClasses (h ! this) = pre @ c # post"
        "?f c = Some (Some p)" "firstPointed ?f (innerClasses (h ! this)) this = Some (Some p)"
        by blast
      have "c \<in> set (innerClasses (h ! this))" using h(1) by simp
      from child [OF this] h(2)
      have "p < length h \<and> includes_ti (classInterval (h ! p)) index
             \<and> startIndex (classInterval (h ! this)) < startIndex (classInterval (h ! p))"
        by auto
      then show ?thesis using eq h(3) True by simp
    qed
  qed
qed



lemma parseClasses_two:
  assumes "parseClasses [] code cs [mA, mB] = Inr (classes, h)"
      and "includes_ti (bodyInterval (h ! 0)) (matchIndex mB)"
  shows "classes = [0] \<and> length h = 2 \<and> innerClasses (h ! 0) = [1] \<and> innerClasses (h ! 1) = []
     \<and> outherClass (h ! 1) = Some 0 \<and> outherClass (h ! 0) = None
     \<and> liesWithin (classInterval (h ! 1)) (bodyInterval (h ! 0))
     \<and> liesWithin (bodyInterval (h ! 0)) (classInterval (h ! 0))"
  using assms
  by (auto simp: parseClasses.simps Let_def JavaClass_of_def add_def setOutherClass_def
        TextInterval_of_def liesWithin_def includes_ti_def
      split: sum.splits if_splits prod.splits)

lemma example_parse:
  "findComments exampleText = Inr [] \<and>
   findClasses exampleText [] (\<lambda>code. exampleClassMatches) = Inr ([0], exampleHeap)"
  by code_simp

lemma example_wellNested: "wellNested exampleHeap"
  by code_simp

lemma firstPointed_not_null: "firstPointed f ics this \<noteq> Some None"
  by (induction ics) (auto split: option.splits Option.bind_splits)

subsection \<open>The stores that parseClasses builds are well nested\<close>

lemma wellNestedClass_mono:
  assumes "wellNestedClass h jc" "length h \<le> length h'"
    and "\<forall>r < length h. classInterval (h' ! r) = classInterval (h ! r)
                        \<and> bodyInterval (h' ! r) = bodyInterval (h ! r)"
  shows "wellNestedClass h' jc"
  using assms
  by (auto simp: wellNestedClass_def list_all_iff split: option.splits)

lemma JavaClass_of_wellNested:
  assumes "wellNested h" "JavaClass_of h n sig body cs = Inr (r, h1)"
    and "startIndex sig < startIndex body"
  shows "r = length h \<and> length h1 = Suc (length h) \<and> wellNested h1"
proof -
  from assms(2) obtain ci where ci: "TextInterval_of (startIndex sig) (endIndex body) = Inr ci"
    and r: "r = length h"
    and h1: "h1 = h @ [\<lparr>name = n,
        comments = filter (\<lambda>comment. liesWithin (interval comment) body) cs,
        signatureInterval = sig, bodyInterval = body, classInterval = ci,
        innerClasses = [], outherClass = None\<rparr>]"
    by (auto simp: JavaClass_of_def Let_def split: sum.splits)
  let ?new = "\<lparr>name = n,
        comments = filter (\<lambda>comment. liesWithin (interval comment) body) cs,
        signatureInterval = sig, bodyInterval = body, classInterval = ci,
        innerClasses = [], outherClass = None\<rparr>"
  have civ: "startIndex ci = startIndex sig" "endIndex ci = endIndex body"
    "0 \<le> startIndex ci" "startIndex ci \<le> endIndex ci"
    using ci by (auto simp: TextInterval_of_def split: if_splits)
  have new: "wellNestedClass h1 ?new"
    using civ assms(3) by (simp add: wellNestedClass_def validInterval_def)
  have old: "wellNestedClass h1 jc" if "jc \<in> set h" for jc
  proof (rule wellNestedClass_mono)
    show "wellNestedClass h jc" using assms(1) that by (simp add: wellNested_def list_all_iff)
    show "length h \<le> length h1" by (simp add: h1)
    show "\<forall>r < length h. classInterval (h1 ! r) = classInterval (h ! r)
                        \<and> bodyInterval (h1 ! r) = bodyInterval (h ! r)"
      by (simp add: h1 nth_append)
  qed
  have "wellNested h1"
    unfolding wellNested_def list_all_iff
  proof
    fix jc assume "jc \<in> set h1"
    then have "jc \<in> set h \<or> jc = ?new" by (auto simp: h1)
    then show "wellNestedClass h1 jc" using old new by blast
  qed
  then show ?thesis using r h1 by simp
qed

lemma add_wellNested:
  assumes wn: "wellNested h" and p: "p < length h" and c: "c < length h"
    and ad: "add h p c = Inr h'"
  shows "wellNested h' \<and> length h' = length h"
proof -
  define h1 where "h1 = h[p := (h ! p)\<lparr>innerClasses := innerClasses (h ! p) @ [c]\<rparr>]"
  from ad have lw: "liesWithin (classInterval (h ! c)) (bodyInterval (h ! p))"
    and so: "setOutherClass h1 c p = Inr h'"
    by (auto simp: add_def h1_def split: if_splits)
  from so have h': "h' = h1[c := (h1 ! c)\<lparr>outherClass := Some p\<rparr>]"
    by (auto simp: setOutherClass_def split: if_splits)
  have len: "length h' = length h" by (simp add: h' h1_def)
  have ci: "classInterval (h' ! r) = classInterval (h ! r)" if "r < length h" for r
    using that p c by (auto simp: h' h1_def nth_list_update)
  have bi: "bodyInterval (h' ! r) = bodyInterval (h ! r)" if "r < length h" for r
    using that p c by (auto simp: h' h1_def nth_list_update)
  have ic: "innerClasses (h' ! r) =
      (if r = p then innerClasses (h ! p) @ [c] else innerClasses (h ! r))"
    if "r < length h" for r
    using that p c by (auto simp: h' h1_def nth_list_update)
  have oc: "outherClass (h' ! r) = (if r = c then Some p else outherClass (h ! r))"
    if "r < length h" for r
    using that p c by (auto simp: h' h1_def nth_list_update)
  have "wellNestedClass h' (h' ! r)" if r: "r < length h'" for r
  proof -
    have rl: "r < length h" using r len by simp
    have base: "wellNestedClass h (h ! r)"
      using wn rl by (simp add: wellNested_def list_all_length)
    have b2: "wellNestedClass h' (h ! r)"
      by (rule wellNestedClass_mono [OF base]) (simp_all add: len ci bi)
    have inner: "list_all (\<lambda>x. x < length h'
        \<and> liesWithin (classInterval (h' ! x)) (bodyInterval (h' ! r))) (innerClasses (h' ! r))"
    proof -
      have "list_all (\<lambda>x. x < length h'
        \<and> liesWithin (classInterval (h' ! x)) (bodyInterval (h ! r))) (innerClasses (h ! r))"
        using b2 by (simp add: wellNestedClass_def)
      then show ?thesis using rl c p lw len by (auto simp: ic bi ci list_all_iff)
    qed
    have outer: "case outherClass (h' ! r) of None \<Rightarrow> True
       | Some q \<Rightarrow> q < length h'
           \<and> liesWithin (classInterval (h' ! r)) (bodyInterval (h' ! q))"
    proof (cases "r = c")
      case True
      then show ?thesis using rl p lw len by (simp add: oc ci bi)
    next
      case False
      have "case outherClass (h ! r) of None \<Rightarrow> True
       | Some q \<Rightarrow> q < length h \<and> liesWithin (classInterval (h ! r)) (bodyInterval (h ! q))"
        using base by (simp add: wellNestedClass_def)
      then show ?thesis using False rl len by (auto simp: oc ci bi split: option.splits)
    qed
    show ?thesis
      using base inner outer rl by (simp add: wellNestedClass_def ci bi)
  qed
  then show ?thesis using len by (simp add: wellNested_def list_all_length)
qed

lemma addAll_wellNested:
  "wellNested h \<Longrightarrow> p < length h \<Longrightarrow> \<forall>c \<in> set ics. c < length h
   \<Longrightarrow> addAll h p ics = Inr h' \<Longrightarrow> wellNested h' \<and> length h' = length h"
proof (induction ics arbitrary: h)
  case Nil
  then show ?case by simp
next
  case (Cons c ics)
  from Cons.prems(4) obtain h1 where a: "add h p c = Inr h1" and r: "addAll h1 p ics = Inr h'"
    by (auto split: sum.splits)
  from add_wellNested [OF Cons.prems(1,2) _ a] Cons.prems(3)
  have h1: "wellNested h1" "length h1 = length h" by simp_all
  from Cons.IH [OF h1(1) _ _ r] Cons.prems(2,3) h1(2) show ?case by simp
qed


lemma parseClasses_wellNested:
  "wellNested h \<Longrightarrow> parseClasses h code cs ms = Inr (classes, h')
   \<Longrightarrow> wellNested h' \<and> length h \<le> length h' \<and> (\<forall>r \<in> set classes. r < length h')"
proof (induction h code cs ms arbitrary: classes h' rule: parseClasses.induct)
  case (1 h code cs)
  then show ?case by (simp add: parseClasses.simps)
next
  case (2 h code cs classMatch classMatches)
  define x where "x = matchIndex classMatch"
  define xa where "xa = x + int (length (matched classMatch)) - 1"
  define xb where "xb = xa + 1"
  define xc where "xc = moveToClosingBracket code xb cs"
  from "2.prems"(2) obtain b ba javaClass h1 ics h2 h3 rest where
    s1: "TextInterval_of x xa = Inr b" and
    s2: "TextInterval_of xb xc = Inr ba" and
    s3: "JavaClass_of h (group1 classMatch) b ba cs = Inr (javaClass, h1)" and
    s4: "parseClasses h1 code cs
           (takeWhile (\<lambda>m. includes_ti ba (matchIndex m)) classMatches) = Inr (ics, h2)" and
    s5: "addAll h2 javaClass ics = Inr h3" and
    s6: "parseClasses h3 code cs
           (dropWhile (\<lambda>m. includes_ti ba (matchIndex m)) classMatches) = Inr (rest, h')" and
    cl: "classes = javaClass # rest"
    unfolding x_def xa_def xb_def xc_def
    by (auto simp: parseClasses.simps Let_def split: sum.splits prod.splits)
  have "startIndex b = x" "startIndex ba = xb" "x \<le> xa"
    using s1 s2 by (auto simp: TextInterval_of_def split: if_splits)
  then have "startIndex b < startIndex ba" by (simp add: xb_def)
  from JavaClass_of_wellNested [OF "2.prems"(1) s3 this]
  have j: "javaClass = length h" "length h1 = Suc (length h)" "wellNested h1" by simp_all
  from "2.IH"(1) [OF x_def xa_def xb_def xc_def s1 s2 s3 refl refl refl j(3) s4]
  have i1: "wellNested h2" "length h1 \<le> length h2" "\<forall>r \<in> set ics. r < length h2"
    by simp_all
  have jl: "javaClass < length h2" using j i1(2) by simp
  from addAll_wellNested [OF i1(1) jl i1(3) s5]
  have i2: "wellNested h3" "length h3 = length h2" by simp_all
  from "2.IH"(2) [OF x_def xa_def xb_def xc_def s1 s2 s3 refl refl refl s4 refl s5 i2(1) s6]
  have i3: "wellNested h'" "length h3 \<le> length h'" "\<forall>r \<in> set rest. r < length h'"
    by simp_all
  show ?case using i3 i2 i1 j jl cl by auto
qed

lemma findClasses_wellNested:
  "findClasses code cs classRegExp = Inr (classes, h)
   \<Longrightarrow> wellNested h \<and> (\<forall>r \<in> set classes. r < length h)"
  using parseClasses_wellNested [of "[]" code cs "classRegExp code" classes h]
  by (simp add: findClasses_def wellNested_def)

subsection \<open>Scope of a class\<close>

text \<open>
  C1 as the code has it. A class with no outer class has scope 1 (not 0), and a class
  with an outer class has the scope of the outer class plus 1: when the call on the
  outer class returns \<open>s\<close> the call returns \<open>s + 1\<close>, and it returns when that one
  does. On a well-nested store, and so on every store that \<open>findClasses\<close> builds, every
  call returns.
\<close>

theorem getScope_outher_plus_one:
  "this < length h \<Longrightarrow>
     (outherClass (h ! this) = None \<longrightarrow> getScope h this = Some 1) \<and>
     (\<forall>outher. outherClass (h ! this) = Some outher \<longrightarrow>
         getScope h this = map_option (\<lambda>s. s + 1) (getScope h outher)) \<and>
     (wellNested h \<longrightarrow> (\<exists>s. getScope h this = Some s \<and> 1 \<le> s)) \<and>
     (findClasses code cs classRegExp = Inr (classes, h) \<longrightarrow>
        (\<exists>s. getScope h this = Some s \<and> 1 \<le> s))"
  using getScope_root [of this h] getScope_inner [of this h] getScope_returns [of h this]
    findClasses_wellNested [of code cs classRegExp classes h]
  by blast

theorem getScope_outher_plus_one_witness:
  "(1::nat) < length exampleHeap \<and> wellNested exampleHeap \<and>
   findClasses exampleText [] (\<lambda>code. exampleClassMatches) = Inr ([0], exampleHeap) \<and>
   outherClass (exampleHeap ! 0) = None \<and> getScope exampleHeap 0 = Some 1 \<and>
   outherClass (exampleHeap ! 1) = Some 0 \<and> getScope exampleHeap 1 = Some 2"
proof -
  have l: "(1::nat) < length exampleHeap" "(0::nat) < length exampleHeap"
    by (simp_all add: exampleHeap_def)
  have o: "outherClass (exampleHeap ! 0) = None" "outherClass (exampleHeap ! 1) = Some 0"
    by (simp_all add: exampleHeap_def)
  from getScope_outher_plus_one [OF l(2)] o(1) have s0: "getScope exampleHeap 0 = Some 1" by blast
  from getScope_outher_plus_one [OF l(1)] o(2)
  have "getScope exampleHeap 1 = map_option (\<lambda>s. s + 1) (getScope exampleHeap 0)" by blast
  then have s1: "getScope exampleHeap 1 = Some 2" using s0 by simp
  show ?thesis using l o s0 s1 example_wellNested example_parse by simp
qed

text \<open>
  C1 as stated fails on the single class of \<open>class A {}\<close>: it has no outer class and its
  scope is 1.
\<close>

theorem getScope_root_counterexample:
  "findClasses ''class A {}'' [] (\<lambda>code. [\<lparr>matchIndex = 0, matched = ''class A '', group1 = ''A''\<rparr>]) =
     Inr ([0], [\<lparr>name = ''A'', comments = [],
                 signatureInterval = \<lparr>startIndex = 0, endIndex = 7\<rparr>,
                 bodyInterval = \<lparr>startIndex = 8, endIndex = 9\<rparr>,
                 classInterval = \<lparr>startIndex = 0, endIndex = 9\<rparr>,
                 innerClasses = [], outherClass = None\<rparr>]) \<and>
   getScope [\<lparr>name = ''A'', comments = [],
                 signatureInterval = \<lparr>startIndex = 0, endIndex = 7\<rparr>,
                 bodyInterval = \<lparr>startIndex = 8, endIndex = 9\<rparr>,
                 classInterval = \<lparr>startIndex = 0, endIndex = 9\<rparr>,
                 innerClasses = [], outherClass = None\<rparr>] 0 = Some 1 \<and>
   getScope [\<lparr>name = ''A'', comments = [],
                 signatureInterval = \<lparr>startIndex = 0, endIndex = 7\<rparr>,
                 bodyInterval = \<lparr>startIndex = 8, endIndex = 9\<rparr>,
                 classInterval = \<lparr>startIndex = 0, endIndex = 9\<rparr>,
                 innerClasses = [], outherClass = None\<rparr>] 0 \<noteq> Some 0"
  by code_simp

subsection \<open>The enclosing class of an index\<close>

text \<open>
  C5. \<open>getEnclosingClass\<close> returns \<open>null\<close> when the index is outside the class interval
  of the node. Otherwise its result is that of the first inner class, in the order of
  \<open>innerClasses\<close>, whose class interval contains the index, and the node itself when no
  inner class contains the index. On a well-nested store (every store that
  \<open>findClasses\<close> builds is one) the call returns, and a class it returns contains the index. In particular, when \<open>parseClasses\<close> is given the matches
  of two classes and the second starts inside the body of the first, the second is the
  only inner class of the first, its outer class is the first, and at every index of its
  class interval the enclosing class is the second.
\<close>

theorem getEnclosingClass_first_child:
  "(this < length h \<longrightarrow>
     (\<not> includes_ti (classInterval (h ! this)) index \<longrightarrow>
        getEnclosingClass h this index = Some None) \<and>
     (includes_ti (classInterval (h ! this)) index \<longrightarrow>
        (\<forall>pre c post.
            innerClasses (h ! this) = pre @ c # post
            \<and> (\<forall>x \<in> set pre. x < length h \<and> \<not> includes_ti (classInterval (h ! x)) index)
            \<and> c < length h \<and> includes_ti (classInterval (h ! c)) index
          \<longrightarrow> getEnclosingClass h this index = getEnclosingClass h c index
              \<and> getEnclosingClass h c index \<noteq> Some None) \<and>
        ((\<forall>c \<in> set (innerClasses (h ! this)).
             c < length h \<and> \<not> includes_ti (classInterval (h ! c)) index)
          \<longrightarrow> getEnclosingClass h this index = Some (Some this))) \<and>
     (wellNested h \<longrightarrow>
        (\<exists>y. getEnclosingClass h this index = Some y
           \<and> (\<forall>x. y = Some x \<longrightarrow> x < length h \<and> includes_ti (classInterval (h ! x)) index)))) \<and>
   (parseClasses [] code cs [mA, mB] = Inr (classes, h2)
      \<and> includes_ti (bodyInterval (h2 ! 0)) (matchIndex mB) \<longrightarrow>
     classes = [0] \<and> innerClasses (h2 ! 0) = [1] \<and> outherClass (h2 ! 1) = Some 0 \<and>
     (\<forall>i. includes_ti (classInterval (h2 ! 1)) i \<longrightarrow> getEnclosingClass h2 0 i = Some (Some 1)))"
proof (intro conjI impI)
  assume "this < length h" "\<not> includes_ti (classInterval (h ! this)) index"
  then show "getEnclosingClass h this index = Some None" by (rule getEnclosingClass_outside)
next
  assume t: "this < length h" and inc: "includes_ti (classInterval (h ! this)) index"
  let ?f = "\<lambda>innerClass. getEnclosingClass h innerClass index"
  note eq = getEnclosingClass_inside [OF t inc]
  show "\<forall>pre c post.
            innerClasses (h ! this) = pre @ c # post
            \<and> (\<forall>x \<in> set pre. x < length h \<and> \<not> includes_ti (classInterval (h ! x)) index)
            \<and> c < length h \<and> includes_ti (classInterval (h ! c)) index
          \<longrightarrow> getEnclosingClass h this index = getEnclosingClass h c index
              \<and> getEnclosingClass h c index \<noteq> Some None"
  proof (intro allI impI)
    fix pre c post
    assume a: "innerClasses (h ! this) = pre @ c # post
            \<and> (\<forall>x \<in> set pre. x < length h \<and> \<not> includes_ti (classInterval (h ! x)) index)
            \<and> c < length h \<and> includes_ti (classInterval (h ! c)) index"
    then have pre: "\<forall>x \<in> set pre. ?f x = Some None"
      using getEnclosingClass_outside by blast
    have nn: "?f c \<noteq> Some None"
      using a getEnclosingClass_inside [of c h index] firstPointed_not_null by simp
    show "getEnclosingClass h this index = getEnclosingClass h c index
              \<and> getEnclosingClass h c index \<noteq> Some None"
      using firstPointed_first [of pre ?f c post this, OF pre nn] a eq nn by simp
  qed
next
  assume t: "this < length h" and inc: "includes_ti (classInterval (h ! this)) index"
    and "\<forall>c \<in> set (innerClasses (h ! this)).
             c < length h \<and> \<not> includes_ti (classInterval (h ! c)) index"
  then have "\<forall>c \<in> set (innerClasses (h ! this)). getEnclosingClass h c index = Some None"
    using getEnclosingClass_outside by blast
  then show "getEnclosingClass h this index = Some (Some this)"
    using getEnclosingClass_inside [OF t inc]
      firstPointed_none [of "innerClasses (h ! this)"
        "\<lambda>innerClass. getEnclosingClass h innerClass index" this]
    by simp
next
  assume "this < length h" "wellNested h"
  then show "\<exists>y. getEnclosingClass h this index = Some y
           \<and> (\<forall>x. y = Some x \<longrightarrow> x < length h \<and> includes_ti (classInterval (h ! x)) index)"
    using getEnclosingClass_returns [of h this index] by blast
next
  assume a: "parseClasses [] code cs [mA, mB] = Inr (classes, h2)
      \<and> includes_ti (bodyInterval (h2 ! 0)) (matchIndex mB)"
  note p = parseClasses_two [of code cs mA mB classes h2]
  from a p show "classes = [0]" by blast
  from a p show "innerClasses (h2 ! 0) = [1]" by blast
  from a p show "outherClass (h2 ! 1) = Some 0" by blast
  show "\<forall>i. includes_ti (classInterval (h2 ! 1)) i \<longrightarrow> getEnclosingClass h2 0 i = Some (Some 1)"
  proof (intro allI impI)
    fix i assume i: "includes_ti (classInterval (h2 ! 1)) i"
    have len: "0 < length h2" "1 < length h2" using a p by simp_all
    have "includes_ti (classInterval (h2 ! 0)) i"
      using a p i by (auto simp: liesWithin_def includes_ti_def)
    then have "getEnclosingClass h2 0 i =
      firstPointed (\<lambda>innerClass. getEnclosingClass h2 innerClass i) [1] 0"
      using getEnclosingClass_inside [OF len(1)] a p by simp
    moreover have "getEnclosingClass h2 1 i = Some (Some 1)"
      using getEnclosingClass_inside [OF len(2) i] a p by simp
    ultimately show "getEnclosingClass h2 0 i = Some (Some 1)" by simp
  qed
qed

theorem getEnclosingClass_first_child_witness:
  "parseClasses [] exampleText [] exampleClassMatches = Inr ([0], exampleHeap) \<and>
   wellNested exampleHeap \<and>
   includes_ti (bodyInterval (exampleHeap ! 0)) 10 \<and>
   innerClasses (exampleHeap ! 0) = [1] \<and>
   outherClass (exampleHeap ! 1) = Some 0 \<and>
   includes_ti (classInterval (exampleHeap ! 1)) 19 \<and>
   getEnclosingClass exampleHeap 1 19 = Some (Some 1) \<and>
   getEnclosingClass exampleHeap 0 19 = Some (Some 1) \<and>
   includes_ti (classInterval (exampleHeap ! 1)) 25 \<and>
   getEnclosingClass exampleHeap 0 25 = Some (Some 1) \<and>
   \<not> includes_ti (classInterval (exampleHeap ! 1)) 9 \<and>
   getEnclosingClass exampleHeap 1 9 = Some None \<and>
   includes_ti (classInterval (exampleHeap ! 0)) 9 \<and>
   getEnclosingClass exampleHeap 0 9 = Some (Some 0)"
proof -
  have p: "parseClasses [] exampleText [] exampleClassMatches = Inr ([0], exampleHeap)"
    using example_parse by (simp add: findClasses_def)
  have m: "exampleClassMatches = [\<lparr>matchIndex = 0, matched = ''class A '', group1 = ''A''\<rparr>,
      \<lparr>matchIndex = 10, matched = ''class A '', group1 = ''A''\<rparr>]"
    by (simp add: exampleClassMatches_def)
  have b: "includes_ti (bodyInterval (exampleHeap ! 0)) 10"
    "includes_ti (classInterval (exampleHeap ! 1)) 19"
    "\<not> includes_ti (classInterval (exampleHeap ! 1)) 9"
    "includes_ti (classInterval (exampleHeap ! 0)) 9"
    "includes_ti (classInterval (exampleHeap ! 0)) 19"
    "includes_ti (classInterval (exampleHeap ! 1)) 25"
    by (simp_all add: exampleHeap_def includes_ti_def)
  have l: "(0::nat) < length exampleHeap" "(1::nat) < length exampleHeap"
    by (simp_all add: exampleHeap_def)
  have ic: "innerClasses (exampleHeap ! 0) = [] @ 1 # []" "innerClasses (exampleHeap ! 1) = []"
    by (simp_all add: exampleHeap_def)
  note w = getEnclosingClass_first_child
  from w [of _ _ _ exampleText "[]" "\<lparr>matchIndex = 0, matched = ''class A '', group1 = ''A''\<rparr>"
           "\<lparr>matchIndex = 10, matched = ''class A '', group1 = ''A''\<rparr>" "[0]" exampleHeap]
    p m b(1)
  have r1: "outherClass (exampleHeap ! 1) = Some 0"
    and r2: "\<forall>i. includes_ti (classInterval (exampleHeap ! 1)) i \<longrightarrow>
               getEnclosingClass exampleHeap 0 i = Some (Some 1)"
    by simp_all
  from w [of 1 exampleHeap 9] l(2) b(3)
  have r3: "getEnclosingClass exampleHeap 1 9 = Some None" by blast
  from w [of 1 exampleHeap 19] l(2) b(2) ic(2)
  have r4: "getEnclosingClass exampleHeap 1 19 = Some (Some 1)" by simp
  from w [of 0 exampleHeap 9] l b(3,4) ic(1)
  have r5: "getEnclosingClass exampleHeap 0 9 = Some (Some 0)" by simp
  from w [of 0 exampleHeap 19] l(1) b(5)
  have "\<forall>pre c post.
          innerClasses (exampleHeap ! 0) = pre @ c # post
          \<and> (\<forall>x \<in> set pre. x < length exampleHeap
                \<and> \<not> includes_ti (classInterval (exampleHeap ! x)) 19)
          \<and> c < length exampleHeap \<and> includes_ti (classInterval (exampleHeap ! c)) 19
        \<longrightarrow> getEnclosingClass exampleHeap 0 19 = getEnclosingClass exampleHeap c 19
            \<and> getEnclosingClass exampleHeap c 19 \<noteq> Some None"
    by blast
  from this [rule_format, of "[]" 1 "[]"] ic(1) l(2) b(2)
  have r6: "getEnclosingClass exampleHeap 0 19 = getEnclosingClass exampleHeap 1 19" by simp
  from r2 b(6) have r7: "getEnclosingClass exampleHeap 0 25 = Some (Some 1)" by blast
  show ?thesis using p b r1 r3 r4 r5 r6 r7 ic example_wellNested by simp
qed

section \<open>Existing methods\<close>

lemma findExistingMethod_loop_not_owned:
  "(\<forall>m \<in> set ms. \<exists>ownerClass. getEnclosingClass h javaClass (matchIndex m) = Some ownerClass
        \<and> ownerClass \<noteq> Some javaClass)
   \<Longrightarrow> findExistingMethod_loop h javaFileContent ms javaClass = Some (Inr None)"
  by (induction ms) auto

lemma getEnclosingClass_in_inner:
  assumes "wellNested h" "javaClass < length h" "c \<in> set (innerClasses (h ! javaClass))"
    "includes_ti (classInterval (h ! c)) index"
  shows "\<exists>ownerClass. getEnclosingClass h javaClass index = Some ownerClass
        \<and> ownerClass \<noteq> Some javaClass"
proof -
  from getEnclosingClass_returns [OF assms(1,2), of index]
  obtain y where y: "getEnclosingClass h javaClass index = Some y"
    "\<forall>x. y = Some x \<longrightarrow> x < length h \<and> includes_ti (classInterval (h ! x)) index
             \<and> (x = javaClass \<and> (\<forall>c \<in> set (innerClasses (h ! javaClass)).
                                \<not> includes_ti (classInterval (h ! c)) index)
                \<or> startIndex (classInterval (h ! javaClass)) < startIndex (classInterval (h ! x)))"
    by blast
  have "y \<noteq> Some javaClass"
  proof
    assume "y = Some javaClass"
    with y(2) have "(\<forall>c \<in> set (innerClasses (h ! javaClass)).
                                \<not> includes_ti (classInterval (h ! c)) index)
      \<or> startIndex (classInterval (h ! javaClass)) < startIndex (classInterval (h ! javaClass))"
      by blast
    then show False using assms(3,4) by auto
  qed
  then show ?thesis using y(1) by blast
qed

text \<open>
  C6. When every match of the signature pattern starts inside an inner class of the
  target class, \<open>findExistingMethod\<close> on the target returns \<open>null\<close>, on every
  well-nested store (every store that \<open>findClasses\<close> builds is one). The owner of a
  match is a reference, compared with the target by \<open>===\<close>; the names of the classes play
  no part (in the witness the inner class bears the name of the outer one).
\<close>

theorem findExistingMethod_inner_class_method:
  assumes "wellNested h" and "javaClass < length h"
    and "\<forall>m \<in> set (regexp javaFileContent).
           \<exists>c \<in> set (innerClasses (h ! javaClass)).
              includes_ti (classInterval (h ! c)) (matchIndex m)"
  shows "findExistingMethod h javaFileContent regexp javaClass = Some (Inr None)"
  unfolding findExistingMethod_def
proof (rule findExistingMethod_loop_not_owned, rule ballI)
  fix m assume "m \<in> set (regexp javaFileContent)"
  with assms(3) obtain c where "c \<in> set (innerClasses (h ! javaClass))"
    "includes_ti (classInterval (h ! c)) (matchIndex m)" by blast
  then show "\<exists>ownerClass. getEnclosingClass h javaClass (matchIndex m) = Some ownerClass
        \<and> ownerClass \<noteq> Some javaClass"
    by (rule getEnclosingClass_in_inner [OF assms(1,2)])
qed

theorem findExistingMethod_inner_class_method_witness:
  "findClasses exampleText [] (\<lambda>code. exampleClassMatches) = Inr ([0], exampleHeap) \<and>
   wellNested exampleHeap \<and> (0::nat) < length exampleHeap \<and>
   name (exampleHeap ! 0) = name (exampleHeap ! 1) \<and>
   exampleMethodRegExp exampleText =
     [\<lparr>matchIndex = 19, matched = '' void m(){'', group1 = []\<rparr>] \<and>
   innerClasses (exampleHeap ! 0) = [1] \<and>
   includes_ti (classInterval (exampleHeap ! 1)) 19 \<and>
   findExistingMethod exampleHeap exampleText exampleMethodRegExp 0 = Some (Inr None)"
proof -
  have l: "(0::nat) < length exampleHeap" by (simp add: exampleHeap_def)
  have n: "name (exampleHeap ! 0) = name (exampleHeap ! 1)" by (simp add: exampleHeap_def)
  have e: "exampleMethodRegExp exampleText =
     [\<lparr>matchIndex = 19, matched = '' void m(){'', group1 = []\<rparr>]"
    "innerClasses (exampleHeap ! 0) = [1]"
    "includes_ti (classInterval (exampleHeap ! 1)) 19"
    by (simp_all add: exampleMethodRegExp_def exampleHeap_def includes_ti_def)
  have m: "\<forall>m \<in> set (exampleMethodRegExp exampleText).
      \<exists>c \<in> set (innerClasses (exampleHeap ! 0)).
         includes_ti (classInterval (exampleHeap ! c)) (matchIndex m)"
    using e by simp
  note r = findExistingMethod_inner_class_method
    [of exampleHeap 0 exampleMethodRegExp exampleText, OF example_wellNested l m]
  show ?thesis using example_parse example_wellNested l n e r by simp
qed

text \<open>
  When the target class has no comment within its body and owns the first match, the
  call ends in a \<open>TypeError\<close>: \<open>findJavaDoc\<close> reads \<open>comments[0].interval\<close>.
\<close>

lemma findExistingMethod_no_comments:
  assumes "comments (h ! javaClass) = []" and "regexp javaFileContent = m # ms"
    and "getEnclosingClass h javaClass (matchIndex m) = Some (Some javaClass)"
  shows "findExistingMethod h javaFileContent regexp javaClass = Some (Inl TypeError)"
  using assms
  by (simp add: findExistingMethod_def methodInterval_def includeJavaDoc_def findJavaDoc_def)

text \<open>
  C2. \<open>findExistingMethod\<close> is never to raise. On the text
  \<open>class A { public String toString(){ return null; } }\<close>, whose class \<open>A\<close> has no
  comment, with the pattern of the configuration for \<open>toString\<close>, which matches at
  index 9, the call on \<open>A\<close> raises a \<open>TypeError\<close>.
\<close>

theorem findExistingMethod_raises_TypeError:
  "findComments ''class A { public String toString(){ return null; } }'' = Inr [] \<and>
   findClasses ''class A { public String toString(){ return null; } }'' []
       (\<lambda>code. [\<lparr>matchIndex = 0, matched = ''class A '', group1 = ''A''\<rparr>]) =
     Inr ([0], [\<lparr>name = ''A'', comments = [],
                 signatureInterval = \<lparr>startIndex = 0, endIndex = 7\<rparr>,
                 bodyInterval = \<lparr>startIndex = 8, endIndex = 51\<rparr>,
                 classInterval = \<lparr>startIndex = 0, endIndex = 51\<rparr>,
                 innerClasses = [], outherClass = None\<rparr>]) \<and>
   findExistingMethod
     [\<lparr>name = ''A'', comments = [],
       signatureInterval = \<lparr>startIndex = 0, endIndex = 7\<rparr>,
       bodyInterval = \<lparr>startIndex = 8, endIndex = 51\<rparr>,
       classInterval = \<lparr>startIndex = 0, endIndex = 51\<rparr>,
       innerClasses = [], outherClass = None\<rparr>]
     ''class A { public String toString(){ return null; } }''
     (\<lambda>code. [\<lparr>matchIndex = 9, matched = '' public String toString(){'', group1 = []\<rparr>]) 0
   = Some (Inl TypeError)"
  by code_simp

section \<open>The insertion index\<close>

lemma belongsToAComment_iff:
  "belongsToAComment this index \<longleftrightarrow>
     (\<exists>c \<in> set (comments this). startIndex (interval c) \<le> index \<and> index \<le> endIndex (interval c))"
  by (auto simp: belongsToAComment_def list_ex_iff includes_ti_def)

lemma whiteSpace_test_charAt:
  "whiteSpace_test (charAt code index) \<longleftrightarrow>
     0 \<le> index \<and> index < int (length code) \<and> isWhiteSpace (code ! nat index)"
  by (auto simp: whiteSpace_test_def charAt_def)

declare getScopeOf_loop.simps [simp del]

lemma disjointCommentsD:
  assumes "disjointComments cs"
  shows "\<And>a b. a < b \<Longrightarrow> b < length cs \<Longrightarrow>
           endIndex (interval (cs ! a)) < startIndex (interval (cs ! b))"
    and "\<And>a. a < length cs \<Longrightarrow> startIndex (interval (cs ! a)) \<le> endIndex (interval (cs ! a))"
  using assms by (auto simp: disjointComments_def sorted_wrt_iff_nth_less list_all_length)

lemma getScopeOf_loop_refines:
  "disjointComments cs
   \<Longrightarrow> (\<forall>a < k. a < length cs \<longrightarrow> endIndex (interval (cs ! a)) < i)
   \<Longrightarrow> (\<forall>b. k \<le> b \<and> b < length cs \<longrightarrow> i \<le> endIndex (interval (cs ! b)))
   \<Longrightarrow> getScopeOf_loop code cs bodyEnd k scope i =
       scope + sum_list (map (braceWeight code cs) [i..bodyEnd - 1])"
proof (induction code cs bodyEnd k scope i rule: getScopeOf_loop.induct)
  case (1 code cs bodyEnd k scope i)
  note sep = disjointCommentsD [OF "1.prems"(1)]
  note I1 = "1.prems"(2) and I2 = "1.prems"(3)
  define bw where "bw = braceWeight code cs"
  show ?case
  proof (cases "i < bodyEnd")
    case False
    then have "[i..bodyEnd - 1] = []" by simp
    then show ?thesis using False by (subst getScopeOf_loop.simps) simp
  next
    case True
    show ?thesis
    proof (cases "k < length cs \<and> startIndex (interval (cs ! k)) \<le> i")
      case jump: True
      define e where "e = endIndex (interval (cs ! k))"
      have kl: "k < length cs" and st: "startIndex (interval (cs ! k)) \<le> i" using jump by simp_all
      have ie: "i \<le> e" using I2 kl by (simp add: e_def)
      have zero: "\<forall>p. i \<le> p \<and> p \<le> e \<longrightarrow> bw p = 0"
      proof (intro allI impI)
        fix p assume "i \<le> p \<and> p \<le> e"
        then have "inComment cs p" using kl st by (auto simp: inComment_iff e_def)
        then show "bw p = 0" by (simp add: bw_def braceWeight_def)
      qed
      have I1': "\<forall>a < k + 1. a < length cs \<longrightarrow> endIndex (interval (cs ! a)) < e + 1"
      proof (intro allI impI)
        fix a assume a: "a < k + 1" "a < length cs"
        show "endIndex (interval (cs ! a)) < e + 1"
        proof (cases "a = k")
          case True
          then show ?thesis by (simp add: e_def)
        next
          case False
          then have "a < k" using a by simp
          then show ?thesis using I1 a(2) ie by fastforce
        qed
      qed
      have I2': "\<forall>b. k + 1 \<le> b \<and> b < length cs \<longrightarrow> e + 1 \<le> endIndex (interval (cs ! b))"
      proof (intro allI impI)
        fix b assume b: "k + 1 \<le> b \<and> b < length cs"
        then have "k < b" by simp
        from sep(1) [OF this] b sep(2) [of b] show "e + 1 \<le> endIndex (interval (cs ! b))"
          by (simp add: e_def)
      qed
      have loop: "getScopeOf_loop code cs bodyEnd k scope i =
                  getScopeOf_loop code cs bodyEnd (k + 1) scope (e + 1)"
        using True jump by (subst getScopeOf_loop.simps) (simp add: e_def)
      have "getScopeOf_loop code cs bodyEnd (k + 1) scope (e + 1) =
            scope + sum_list (map (braceWeight code cs) [e + 1..bodyEnd - 1])"
        using "1.IH"(1) [OF True jump "1.prems"(1)] I1' I2' by (simp add: e_def)
      moreover have "sum_list (map bw [i..bodyEnd - 1]) = sum_list (map bw [e + 1..bodyEnd - 1])"
      proof (cases "e \<le> bodyEnd - 1")
        case True
        show ?thesis by (rule sum_upto_zero_prefix) (use ie True zero in auto)
      next
        case False
        then have "sum_list (map bw [i..bodyEnd - 1]) = 0"
          by (intro sum_list_map_zero) (use zero in auto)
        moreover have "[e + 1..bodyEnd - 1] = []" using False by simp
        ultimately show ?thesis by simp
      qed
      ultimately show ?thesis unfolding loop by (simp add: bw_def)
    next
      case nj: False
      have later: "i < startIndex (interval (cs ! b))" if b: "k \<le> b" "b < length cs" for b
      proof (cases "b = k")
        case True
        then show ?thesis using nj b by auto
      next
        case False
        then have kb: "k < b" using b by simp
        then have kl: "k < length cs" using b by simp
        have "i < startIndex (interval (cs ! k))" using nj kl by simp
        also have "\<dots> \<le> endIndex (interval (cs ! k))" by (rule sep(2) [OF kl])
        also have "\<dots> < startIndex (interval (cs ! b))" by (rule sep(1) [OF kb b(2)])
        finally show ?thesis .
      qed
      have nc: "\<not> inComment cs i"
      proof
        assume "inComment cs i"
        then obtain b where b: "b < length cs" "startIndex (interval (cs ! b)) \<le> i"
          "i \<le> endIndex (interval (cs ! b))" by (auto simp: inComment_iff)
        show False
        proof (cases "b < k")
          case True
          then show ?thesis using I1 b by fastforce
        next
          case False
          then show ?thesis using later [of b] b by simp
        qed
      qed
      have I1': "\<forall>a < k. a < length cs \<longrightarrow> endIndex (interval (cs ! a)) < i + 1"
        using I1 by fastforce
      have I2': "\<forall>b. k \<le> b \<and> b < length cs \<longrightarrow> i + 1 \<le> endIndex (interval (cs ! b))"
      proof (intro allI impI)
        fix b assume b: "k \<le> b \<and> b < length cs"
        then have "i < startIndex (interval (cs ! b))" using later by simp
        also have "\<dots> \<le> endIndex (interval (cs ! b))" using sep(2) b by simp
        finally show "i + 1 \<le> endIndex (interval (cs ! b))" by simp
      qed
      have hd: "sum_list (map bw [i..bodyEnd - 1]) = bw i + sum_list (map bw [i + 1..bodyEnd - 1])"
        using True by (simp add: sum_upto_head)
      consider (op) "charAt code i = Some CHR ''{''"
        | (cl) "charAt code i \<noteq> Some CHR ''{''" "charAt code i = Some CHR ''}''"
        | (other) "charAt code i \<noteq> Some CHR ''{''" "charAt code i \<noteq> Some CHR ''}''"
        by auto
      then show ?thesis
      proof cases
        case op
        then have w: "bw i = 1" using nc by (simp add: bw_def braceWeight_def)
        have "getScopeOf_loop code cs bodyEnd k (scope + 1) (i + 1) =
              scope + 1 + sum_list (map (braceWeight code cs) [i + 1..bodyEnd - 1])"
          by (rule "1.IH"(2) [OF True nj op "1.prems"(1) I1' I2'])
        moreover have "getScopeOf_loop code cs bodyEnd k scope i =
              getScopeOf_loop code cs bodyEnd k (scope + 1) (i + 1)"
          using True nj op by (subst getScopeOf_loop.simps) auto
        ultimately show ?thesis using hd w by (simp add: bw_def)
      next
        case cl
        then have w: "bw i = - 1" using nc by (simp add: bw_def braceWeight_def)
        have "getScopeOf_loop code cs bodyEnd k (scope - 1) (i + 1) =
              scope - 1 + sum_list (map (braceWeight code cs) [i + 1..bodyEnd - 1])"
          by (rule "1.IH"(3) [OF True nj cl "1.prems"(1) I1' I2'])
        moreover have "getScopeOf_loop code cs bodyEnd k scope i =
              getScopeOf_loop code cs bodyEnd k (scope - 1) (i + 1)"
          using True nj cl by (subst getScopeOf_loop.simps) auto
        ultimately show ?thesis using hd w by (simp add: bw_def)
      next
        case other
        then have w: "bw i = 0" by (simp add: bw_def braceWeight_def)
        have "getScopeOf_loop code cs bodyEnd k scope (i + 1) =
              scope + sum_list (map (braceWeight code cs) [i + 1..bodyEnd - 1])"
          by (rule "1.IH"(4) [OF True nj other "1.prems"(1) I1' I2'])
        moreover have "getScopeOf_loop code cs bodyEnd k scope i =
              getScopeOf_loop code cs bodyEnd k scope (i + 1)"
          using True nj other by (subst getScopeOf_loop.simps) auto
        ultimately show ?thesis using hd w by (simp add: bw_def)
      qed
    qed
  qed
qed

lemma getScopeOf_refines:
  assumes sep: "disjointComments (comments this)"
  shows "getScopeOf this index code =
         braceDepth code (comments this) index (endIndex (bodyInterval this))"
proof -
  define cs where "cs = comments this"
  define k0 where "k0 = skipCommentsBefore cs index 0"
  from skipCommentsBefore_spec [of 0 cs index]
  have k0: "k0 \<le> length cs"
    "\<forall>a. a < k0 \<longrightarrow> endIndex (interval (cs ! a)) < index"
    "k0 < length cs \<longrightarrow> \<not> endIndex (interval (cs ! k0)) < index"
    by (simp_all add: k0_def)
  have sep': "disjointComments cs" using sep by (simp add: cs_def)
  note sepD = disjointCommentsD [OF sep']
  have I1: "\<forall>a < k0. a < length cs \<longrightarrow> endIndex (interval (cs ! a)) < index"
    using k0(2) by simp
  have I2: "\<forall>b. k0 \<le> b \<and> b < length cs \<longrightarrow> index \<le> endIndex (interval (cs ! b))"
  proof (intro allI impI)
    fix b assume b: "k0 \<le> b \<and> b < length cs"
    then have kl: "k0 < length cs" by simp
    have ge: "index \<le> endIndex (interval (cs ! k0))" using k0(3) kl by simp
    show "index \<le> endIndex (interval (cs ! b))"
    proof (cases "b = k0")
      case True
      then show ?thesis using ge by simp
    next
      case False
      then have "k0 < b" using b by simp
      from sepD(1) [OF this] b sepD(2) [of b] ge show ?thesis by simp
    qed
  qed
  show ?thesis
    using getScopeOf_loop_refines [OF sep' I1 I2, of code "endIndex (bodyInterval this)" 0]
    by (simp add: getScopeOf_def braceDepth_def cs_def k0_def)
qed

text \<open>
  The order of the checks of \<open>getInsertIndex\<close>, with the depth that \<open>getScopeOf\<close>
  computes as the last one. When the comments of the class are disjoint, that depth is
  the brace depth outside the comments.
\<close>

lemma getInsertIndex_cases:
  "getInsertIndex this javaFileContent index =
     (if index < startIndex (bodyInterval this) \<or> endIndex (bodyInterval this) < index
         \<or> \<not> (0 \<le> index \<and> index < int (length javaFileContent)
               \<and> isWhiteSpace (javaFileContent ! nat index))
         \<or> (\<exists>c \<in> set (comments this).
               startIndex (interval c) \<le> index \<and> index \<le> endIndex (interval c))
         \<or> getScopeOf this index javaFileContent \<noteq> 0
      then endIndex (bodyInterval this)
      else index) \<and>
   (disjointComments (comments this) \<longrightarrow>
      getScopeOf this index javaFileContent =
        braceDepth javaFileContent (comments this) index (endIndex (bodyInterval this)))"
proof
  show "getInsertIndex this javaFileContent index =
     (if index < startIndex (bodyInterval this) \<or> endIndex (bodyInterval this) < index
         \<or> \<not> (0 \<le> index \<and> index < int (length javaFileContent)
               \<and> isWhiteSpace (javaFileContent ! nat index))
         \<or> (\<exists>c \<in> set (comments this).
               startIndex (interval c) \<le> index \<and> index \<le> endIndex (interval c))
         \<or> getScopeOf this index javaFileContent \<noteq> 0
      then endIndex (bodyInterval this)
      else index)"
    unfolding getInsertIndex_def belongsToAComment_iff whiteSpace_test_charAt includes_ti_def
    by auto
  show "disjointComments (comments this) \<longrightarrow>
      getScopeOf this index javaFileContent =
        braceDepth javaFileContent (comments this) index (endIndex (bodyInterval this))"
    using getScopeOf_refines by blast
qed

lemma getInsertIndex_cases_examples:
  "findComments insertText =
     Inr [\<lparr>type = multiLine, interval = \<lparr>startIndex = 10, endIndex = 16\<rparr>\<rparr>] \<and>
   findClasses insertText [\<lparr>type = multiLine, interval = \<lparr>startIndex = 10, endIndex = 16\<rparr>\<rparr>]
       (\<lambda>code. [\<lparr>matchIndex = 0, matched = ''class A '', group1 = ''A''\<rparr>]) =
     Inr ([0], [insertClass]) \<and>
   disjointComments (comments insertClass) \<and>
   getInsertIndex insertClass insertText 3 = 39 \<and>
   getInsertIndex insertClass insertText 18 = 39 \<and>
   getInsertIndex insertClass insertText 12 = 39 \<and>
   braceDepth insertText (comments insertClass) 26 39 = - 1 \<and>
   getScopeOf insertClass 26 insertText = - 1 \<and>
   getInsertIndex insertClass insertText 26 = 39 \<and>
   braceDepth insertText (comments insertClass) 9 39 = 0 \<and>
   getScopeOf insertClass 9 insertText = 0 \<and>
   getInsertIndex insertClass insertText 9 = 9 \<and>
   getInsertIndex insertClass insertText 38 = 38"
proof -
  have p: "findComments insertText =
     Inr [\<lparr>type = multiLine, interval = \<lparr>startIndex = 10, endIndex = 16\<rparr>\<rparr>]"
   "findClasses insertText [\<lparr>type = multiLine, interval = \<lparr>startIndex = 10, endIndex = 16\<rparr>\<rparr>]
       (\<lambda>code. [\<lparr>matchIndex = 0, matched = ''class A '', group1 = ''A''\<rparr>]) =
     Inr ([0], [insertClass])"
    by code_simp+
  have d: "disjointComments (comments insertClass)"
    "braceDepth insertText (comments insertClass) 26 39 = - 1"
    "braceDepth insertText (comments insertClass) 9 39 = 0"
    "braceDepth insertText (comments insertClass) 38 39 = 0"
    by code_simp+
  have f: "startIndex (bodyInterval insertClass) = 8" "endIndex (bodyInterval insertClass) = 39"
    "comments insertClass = [\<lparr>type = multiLine, interval = \<lparr>startIndex = 10, endIndex = 16\<rparr>\<rparr>]"
    "length insertText = 40"
    by (simp_all add: insertClass_def insertText_def)
  have c: "insertText ! 9 = CHR '' ''" "insertText ! 12 = CHR '' ''" "insertText ! 18 = CHR ''i''"
    "insertText ! 26 = CHR '' ''" "insertText ! 38 = CHR '' ''"
    by (simp_all add: insertText_def)
  note w = getInsertIndex_cases [of insertClass insertText]
  have s: "getScopeOf insertClass 26 insertText = - 1" "getScopeOf insertClass 9 insertText = 0"
    "getScopeOf insertClass 38 insertText = 0"
    using w [of 26] w [of 9] w [of 38] d f(2) by simp_all
  have "getInsertIndex insertClass insertText 3 = 39" using w [of 3] f by simp
  moreover have "getInsertIndex insertClass insertText 18 = 39"
    using w [of 18] f c by (simp add: isWhiteSpace_def)
  moreover have "getInsertIndex insertClass insertText 12 = 39" using w [of 12] f c by simp
  moreover have "getInsertIndex insertClass insertText 26 = 39" using w [of 26] f c s by simp
  moreover have "getInsertIndex insertClass insertText 9 = 9"
    using w [of 9] f c s by (simp add: isWhiteSpace_def)
  moreover have "getInsertIndex insertClass insertText 38 = 38"
    using w [of 38] f c s by (simp add: isWhiteSpace_def)
  ultimately show ?thesis using p d s by simp
qed

text \<open>
  C4. \<open>getInsertIndex\<close> is to return \<open>bodyInterval.endIndex\<close> when the index is outside
  the body, or the character there is not white space, or the index lies inside a
  comment of the class, or the brace depth from the index to the end of the body,
  skipping comments, is not 0, and the index in all remaining cases. It does not in the
  class of \<open>nestedText\<close>, whose body \<open>[8,35]\<close> the code finds rightly. Index 21, between
  the two multi-line comments, is in the body, holds a space and lies in no comment, and
  the only braces from there to the end of the body are inside the comment \<open>[22,33]\<close>:
  the depth is 0 and the result should be 21. But \<open>getScopeOf\<close>, after its jump over
  that comment to 34, is past the start of the single-line comment \<open>[25,28]\<close> inside it
  and goes back to 29; it counts the brace at 30 and returns -1, so \<open>getInsertIndex\<close>
  returns 35.
\<close>

theorem getInsertIndex_nested_comments:
  "findComments nestedText = Inr nestedComments \<and>
   findClasses nestedText nestedComments
       (\<lambda>code. [\<lparr>matchIndex = 0, matched = ''class A '', group1 = ''A''\<rparr>]) =
     Inr ([0], [nestedClass]) \<and>
   matchingBracket nestedText nestedComments 8 = Some 35 \<and>
   includes_ti (bodyInterval nestedClass) 21 \<and>
   charAt nestedText 21 = Some CHR '' '' \<and>
   whiteSpace_test (charAt nestedText 21) \<and>
   \<not> belongsToAComment nestedClass 21 \<and>
   filter (\<lambda>p. (charAt nestedText p = Some CHR ''{'' \<or> charAt nestedText p = Some CHR ''}'')
                \<and> \<not> inComment (comments nestedClass) p)
     [21..endIndex (bodyInterval nestedClass) - 1] = [] \<and>
   braceDepth nestedText (comments nestedClass) 21 (endIndex (bodyInterval nestedClass)) = 0 \<and>
   getScopeOf nestedClass 21 nestedText = - 1 \<and>
   getInsertIndex nestedClass nestedText 21 = 35"
  by code_simp

end
